theory Spec2Isabelle
  imports Main "HOL-Library.AList"
begin

section \<open>The room coordination core of \<^verbatim>\<open>src/backend/server.js\<close>\<close>

text \<open>
  The server keeps one global table \<^verbatim>\<open>rooms\<close> (drawing id to member list and stroke
  log) and registers six handlers on every Socket.IO connection. Each handler runs to
  completion before the next event is processed, so a handler is a function from the
  server state to the new state and the list of emissions it made, in call order.

  Two pieces of state are involved and they are kept apart here, as in the code:
  the table \<^verbatim>\<open>rooms\<close> owned by \<^verbatim>\<open>server.js\<close>, and the room membership that Socket.IO
  itself keeps for every socket (\<^verbatim>\<open>socket.rooms\<close>, \<^verbatim>\<open>socket.join\<close>, \<^verbatim>\<open>socket.leave\<close>),
  which alone decides who receives a broadcast.
\<close>

subsection \<open>JavaScript values\<close>

text \<open>
  Payload values are copied by the server and never inspected. The numbers the server
  itself produces (\<^verbatim>\<open>Date.now()\<close>, list indices) are integers; a number of a payload
  stands for itself only.
\<close>

datatype jsval =
    JUndefined
  | JNull
  | JBool bool
  | JNum int
  | JStr string
  | JArr "jsval list"
  | JObj "(string \<times> jsval) list"

text \<open>A plain object: its own properties in creation order.\<close>

type_synonym jsobj = "(string \<times> jsval) list"

text \<open>
  \<^verbatim>\<open>const rooms = {}\<close> is an object literal, so it inherits from \<^verbatim>\<open>Object.prototype\<close>.
  A read \<^verbatim>\<open>rooms[drawingId]\<close> finds an own property first and then walks the prototype
  chain; for the names below it returns a built-in (a function, or the prototype object
  itself for \<^verbatim>\<open>__proto__\<close>), which is truthy and has neither \<^verbatim>\<open>users\<close> nor \<^verbatim>\<open>strokes\<close>.
\<close>

definition object_prototype_names :: "string list" where
  "object_prototype_names =
     [''constructor'', ''__defineGetter__'', ''__defineSetter__'', ''hasOwnProperty'',
      ''__lookupGetter__'', ''__lookupSetter__'', ''isPrototypeOf'',
      ''propertyIsEnumerable'', ''toString'', ''valueOf'', ''__proto__'',
      ''toLocaleString'']"

datatype 'a property = Absent | Inherited | Own 'a

text \<open>
  What goes wrong in a handler. \<^verbatim>\<open>TypeError\<close> is the exception of reading a property of
  \<^verbatim>\<open>undefined\<close>; no handler catches it and \<^verbatim>\<open>server.js\<close> installs no handler for
  uncaught exceptions, so the state is lost with the process. \<^verbatim>\<open>Builtin_write\<close> is not an
  exception: the handler has assigned a property of a built-in object shared by the whole
  process, which is outside the state described here, and the description stops there.
\<close>

datatype failure = TypeError | Builtin_write

subsection \<open>Data model\<close>

text \<open>
  \<^verbatim>\<open>{ id, username, color }\<close>; the field \<^verbatim>\<open>id\<close> is named \<open>id_user\<close> here because
  \<open>id\<close> is the identity function of HOL.
\<close>

record user =
  id_user :: string
  username :: string
  color :: string

text \<open>\<^verbatim>\<open>{ users: [...], strokes: [...] }\<close>\<close>

record room =
  users :: "user list"
  strokes :: "jsobj list"

text \<open>
  The three ways the handlers address an emission:
  \<^verbatim>\<open>socket.emit\<close>, \<^verbatim>\<open>socket.to(room).emit\<close> and \<^verbatim>\<open>io.to(room).emit\<close>.
\<close>

datatype target =
    Socket_emit string
  | Socket_to string string
  | Io_to string

datatype message =
    Room_state "user list" "jsobj list"
  | User_joined user
  | User_left string string
  | Stroke_drawn jsobj
  | Cursor_moved string string string jsval jsval
  | Stroke_undone string nat
  | Canvas_cleared

text \<open>An emission with the sockets it was delivered to, resolved when it was made.\<close>

datatype emission = Emission (target: target) (message: message) (receivers: "string list")

text \<open>
  The server state: every connected socket with its \<^verbatim>\<open>socket.rooms\<close> (a \<^verbatim>\<open>Set\<close>, kept in
  insertion order), and the own properties of \<^verbatim>\<open>rooms\<close> in creation order.
\<close>

record server =
  sockets :: "(string \<times> string list) list"
  rooms :: "(string \<times> room) list"

definition rooms_get :: "(string \<times> room) list \<Rightarrow> string \<Rightarrow> room property" where
  "rooms_get rs drawingId =
     (case map_of rs drawingId of
        Some r \<Rightarrow> Own r
      | None \<Rightarrow> if drawingId \<in> set object_prototype_names then Inherited else Absent)"

subsection \<open>Socket.IO: room membership and delivery\<close>

definition socket_rooms :: "server \<Rightarrow> string \<Rightarrow> string list" where
  "socket_rooms st sid = (case map_of (sockets st) sid of Some rs \<Rightarrow> rs | None \<Rightarrow> [])"

definition socket_join :: "string \<Rightarrow> string \<Rightarrow> server \<Rightarrow> server" where
  "socket_join sid r st =
     st\<lparr>sockets :=
          map (\<lambda>(s, rs). if s = sid \<and> r \<notin> set rs then (s, rs @ [r]) else (s, rs))
            (sockets st)\<rparr>"

definition socket_leave :: "string \<Rightarrow> string \<Rightarrow> server \<Rightarrow> server" where
  "socket_leave sid r st =
     st\<lparr>sockets :=
          map (\<lambda>(s, rs). if s = sid then (s, removeAll r rs) else (s, rs)) (sockets st)\<rparr>"

definition in_room :: "server \<Rightarrow> string \<Rightarrow> string list" where
  "in_room st r = filter (\<lambda>s. r \<in> set (socket_rooms st s)) (map fst (sockets st))"

text \<open>
  \<^verbatim>\<open>socket.emit\<close> reaches the socket itself and \<^verbatim>\<open>io.to(room)\<close> every socket in the room.
  \<^verbatim>\<open>socket.to(room)\<close> is, in Socket.IO 4, a broadcast to the room with the room named by
  the sender's id as an exception: it reaches every socket in the room that is not in the
  sender's own room. The sender is in its own room, and so is any other socket that has
  joined a room of that name.
\<close>

fun resolve :: "server \<Rightarrow> target \<Rightarrow> string list" where
  "resolve st (Socket_emit sid) = [sid]"
| "resolve st (Socket_to sid r) =
     filter (\<lambda>s. sid \<notin> set (socket_rooms st s)) (in_room st r)"
| "resolve st (Io_to r) = in_room st r"

definition emit :: "server \<Rightarrow> target \<Rightarrow> message \<Rightarrow> emission" where
  "emit st t m = Emission t m (resolve st t)"

subsection \<open>Array helpers\<close>

text \<open>\<^verbatim>\<open>xs.findIndex(p)\<close>, with \<open>None\<close> for \<^verbatim>\<open>-1\<close>.\<close>

fun findIndex :: "('a \<Rightarrow> bool) \<Rightarrow> 'a list \<Rightarrow> nat option" where
  "findIndex p [] = None"
| "findIndex p (x # xs) =
     (if p x then Some 0 else (case findIndex p xs of None \<Rightarrow> None | Some i \<Rightarrow> Some (Suc i)))"

text \<open>\<^verbatim>\<open>xs.splice(i, 1)\<close>: the array afterwards.\<close>

definition splice1 :: "nat \<Rightarrow> 'a list \<Rightarrow> 'a list" where
  "splice1 i xs = take i xs @ drop (Suc i) xs"

text \<open>\<^verbatim>\<open>xs.map((x, index) => ({ x, index }))\<close>: every element with its index.\<close>

fun with_index :: "nat \<Rightarrow> 'a list \<Rightarrow> ('a \<times> nat) list" where
  "with_index n [] = []"
| "with_index n (x # xs) = (x, n) # with_index (Suc n) xs"

text \<open>
  \<^verbatim>\<open>Object.keys\<close>: the own keys that are array indices first, in ascending numeric
  order, then the other keys in creation order.
\<close>

definition decimal_value :: "string \<Rightarrow> int" where
  "decimal_value s = fold (\<lambda>c n. 10 * n + (of_char c - 48)) s 0"

definition is_array_index :: "string \<Rightarrow> bool" where
  "is_array_index s =
     (s \<noteq> [] \<and> list_all (\<lambda>c. c \<in> set ''0123456789'') s
      \<and> (s = ''0'' \<or> take 1 s \<noteq> ''0'') \<and> decimal_value s < 4294967295)"

definition object_keys :: "(string \<times> 'a) list \<Rightarrow> string list" where
  "object_keys rs =
     (let ks = remdups (map fst rs)
      in sort_key decimal_value (filter is_array_index ks)
         @ filter (\<lambda>k. \<not> is_array_index k) ks)"

subsection \<open>The handlers\<close>

text \<open>\<^verbatim>\<open>function removeUserFromRoom(drawingId, userId)\<close>\<close>

definition removeUserFromRoom ::
  "string \<Rightarrow> string \<Rightarrow> server \<Rightarrow> failure + server \<times> emission list" where
  "removeUserFromRoom drawingId userId st =
     (case rooms_get (rooms st) drawingId of
        Absent \<Rightarrow> Inr (st, [])
      | Inherited \<Rightarrow> Inl TypeError
      | Own r \<Rightarrow>
          (case findIndex (\<lambda>u. id_user u = userId) (users r) of
             None \<Rightarrow> Inr (st, [])
           | Some userIndex \<Rightarrow>
               (let user = users r ! userIndex;
                    us = splice1 userIndex (users r);
                    st1 = st\<lparr>rooms := AList.update drawingId (r\<lparr>users := us\<rparr>) (rooms st)\<rparr>;
                    out = [emit st1 (Io_to drawingId) (User_left userId (username user))]
                in if length us = 0
                   then Inr (st1\<lparr>rooms := AList.delete drawingId (rooms st1)\<rparr>, out)
                   else Inr (st1, out))))"

text \<open>The fixed palette of the \<^verbatim>\<open>join-drawing\<close> handler.\<close>

definition colors :: "string list" where
  "colors = [''#FF6B6B'', ''#4ECDC4'', ''#45B7D1'', ''#FFA07A'',
             ''#98D8C8'', ''#F7DC6F'', ''#BB8FCE'', ''#85C1E2'']"

text \<open>
  The first statement of \<^verbatim>\<open>join-drawing\<close>: the first entry of \<^verbatim>\<open>socket.rooms\<close> other than
  the socket's own id; if it is truthy (a non-empty string) the socket leaves that room
  and is removed from its member list.
\<close>

definition leave_previous ::
  "string \<Rightarrow> server \<Rightarrow> failure + server \<times> emission list" where
  "leave_previous sid st =
     (case find (\<lambda>room. room \<noteq> sid) (socket_rooms st sid) of
        None \<Rightarrow> Inr (st, [])
      | Some previousRoom \<Rightarrow>
          if previousRoom \<noteq> []
          then removeUserFromRoom previousRoom sid (socket_leave sid previousRoom st)
          else Inr (st, []))"

text \<open>
  \<^verbatim>\<open>socket.on('join-drawing', ({ drawingId, username }) => ...)\<close>.
  A missing \<^verbatim>\<open>username\<close> is \<open>None\<close>; it and the empty string are falsy.
\<close>

definition join_drawing ::
  "string \<Rightarrow> string \<Rightarrow> string option \<Rightarrow> server \<Rightarrow> failure + server \<times> emission list" where
  "join_drawing sid drawingId uname st =
     (case leave_previous sid st of
        Inl e \<Rightarrow> Inl e
      | Inr (st1, out1) \<Rightarrow>
          (let st2 = socket_join sid drawingId st1;
               st3 = (case rooms_get (rooms st2) drawingId of
                        Absent \<Rightarrow>
                          st2\<lparr>rooms :=
                                AList.update drawingId \<lparr>users = [], strokes = []\<rparr> (rooms st2)\<rparr>
                      | _ \<Rightarrow> st2)
           in case rooms_get (rooms st3) drawingId of
                Absent \<Rightarrow> Inl TypeError
              | Inherited \<Rightarrow> Inl TypeError
              | Own r \<Rightarrow>
                  (let userColor = colors ! (length (users r) mod length colors);
                       user = \<lparr>id_user = sid,
                               username = (case uname of
                                             None \<Rightarrow> ''User'' @ take 4 sid
                                           | Some n \<Rightarrow> if n \<noteq> [] then n else ''User'' @ take 4 sid),
                               color = userColor\<rparr>;
                       r' = r\<lparr>users := users r @ [user]\<rparr>;
                       st4 = st3\<lparr>rooms := AList.update drawingId r' (rooms st3)\<rparr>
                   in Inr (st4,
                        out1 @
                        [emit st4 (Socket_emit sid) (Room_state (users r') (strokes r')),
                         emit st4 (Socket_to sid drawingId) (User_joined user)]))))"

text \<open>
  \<^verbatim>\<open>socket.on('draw-stroke', ({ drawingId, stroke }) => ...)\<close>. The payload \<^verbatim>\<open>stroke\<close> is an
  object; \<^verbatim>\<open>{ ...stroke, userId: socket.id, timestamp: Date.now() }\<close> copies its properties
  and then sets the two fields, replacing a property of the same name where it stands.
  \<open>now\<close> is the value of \<^verbatim>\<open>Date.now()\<close>.
\<close>

definition draw_stroke ::
  "string \<Rightarrow> string \<Rightarrow> jsobj \<Rightarrow> int \<Rightarrow> server \<Rightarrow> failure + server \<times> emission list" where
  "draw_stroke sid drawingId stroke now st =
     (case rooms_get (rooms st) drawingId of
        Absent \<Rightarrow> Inr (st, [])
      | Inherited \<Rightarrow> Inl TypeError
      | Own r \<Rightarrow>
          (let entry = AList.update ''timestamp'' (JNum now)
                         (AList.update ''userId'' (JStr sid) stroke);
               st1 = st\<lparr>rooms :=
                          AList.update drawingId (r\<lparr>strokes := strokes r @ [entry]\<rparr>) (rooms st)\<rparr>
           in Inr (st1,
                [emit st1 (Socket_to sid drawingId)
                   (Stroke_drawn (AList.update ''userId'' (JStr sid) stroke))])))"

text \<open>\<^verbatim>\<open>socket.on('cursor-move', ({ drawingId, x, y }) => ...)\<close>\<close>

definition cursor_move ::
  "string \<Rightarrow> string \<Rightarrow> jsval \<Rightarrow> jsval \<Rightarrow> server \<Rightarrow> failure + server \<times> emission list" where
  "cursor_move sid drawingId x y st =
     (case rooms_get (rooms st) drawingId of
        Absent \<Rightarrow> Inr (st, [])
      | Inherited \<Rightarrow> Inl TypeError
      | Own r \<Rightarrow>
          (case find (\<lambda>u. id_user u = sid) (users r) of
             None \<Rightarrow> Inr (st, [])
           | Some user \<Rightarrow>
               Inr (st,
                 [emit st (Socket_to sid drawingId)
                    (Cursor_moved sid (username user) (color user) x y)])))"

text \<open>
  \<^verbatim>\<open>socket.on('undo-stroke', ({ drawingId }) => ...)\<close>: the strokes paired with their
  indices, filtered by author; the last pair gives the index to splice out.
\<close>

definition undo_stroke ::
  "string \<Rightarrow> string \<Rightarrow> server \<Rightarrow> failure + server \<times> emission list" where
  "undo_stroke sid drawingId st =
     (case rooms_get (rooms st) drawingId of
        Absent \<Rightarrow> Inr (st, [])
      | Inherited \<Rightarrow> Inl TypeError
      | Own r \<Rightarrow>
          (let userStrokes =
                 filter (\<lambda>(stroke, index). map_of stroke ''userId'' = Some (JStr sid))
                   (with_index 0 (strokes r))
           in if length userStrokes > 0
              then (let lastStroke = userStrokes ! (length userStrokes - 1);
                        st1 = st\<lparr>rooms :=
                                   AList.update drawingId
                                     (r\<lparr>strokes := splice1 (snd lastStroke) (strokes r)\<rparr>)
                                     (rooms st)\<rparr>
                    in Inr (st1,
                         [emit st1 (Io_to drawingId) (Stroke_undone sid (snd lastStroke))]))
              else Inr (st, [])))"

text \<open>
  \<^verbatim>\<open>socket.on('clear-canvas', ({ drawingId }) => ...)\<close>. On an inherited name the
  assignment \<^verbatim>\<open>rooms[drawingId].strokes = []\<close> lands on the built-in (and the handler
  goes on to emit to the Socket.IO room of that name).
\<close>

definition clear_canvas ::
  "string \<Rightarrow> string \<Rightarrow> server \<Rightarrow> failure + server \<times> emission list" where
  "clear_canvas sid drawingId st =
     (case rooms_get (rooms st) drawingId of
        Absent \<Rightarrow> Inr (st, [])
      | Inherited \<Rightarrow> Inl Builtin_write
      | Own r \<Rightarrow>
          (let st1 = st\<lparr>rooms := AList.update drawingId (r\<lparr>strokes := []\<rparr>) (rooms st)\<rparr>
           in Inr (st1, [emit st1 (Io_to drawingId) Canvas_cleared])))"

text \<open>
  \<^verbatim>\<open>Object.keys(rooms).forEach(drawingId => removeUserFromRoom(drawingId, socket.id))\<close>:
  the keys are taken once, before the first removal.
\<close>

fun remove_from_each ::
  "string list \<Rightarrow> string \<Rightarrow> server \<Rightarrow> failure + server \<times> emission list" where
  "remove_from_each [] userId st = Inr (st, [])"
| "remove_from_each (drawingId # ks) userId st =
     (case removeUserFromRoom drawingId userId st of
        Inl e \<Rightarrow> Inl e
      | Inr (st1, out1) \<Rightarrow>
          (case remove_from_each ks userId st1 of
             Inl e \<Rightarrow> Inl e
           | Inr (st2, out2) \<Rightarrow> Inr (st2, out1 @ out2)))"

text \<open>
  \<^verbatim>\<open>socket.on('disconnect', ...)\<close>. Socket.IO has taken the socket out of all its rooms
  before this handler runs.
\<close>

definition disconnect :: "string \<Rightarrow> server \<Rightarrow> failure + server \<times> emission list" where
  "disconnect sid st =
     remove_from_each (object_keys (rooms st)) sid
       (st\<lparr>sockets := AList.delete sid (sockets st)\<rparr>)"

text \<open>
  \<^verbatim>\<open>io.on('connection', ...)\<close>: a new socket is in the room named by its own id.
  Socket ids are generated by the server and never repeat.
\<close>

definition connection :: "string \<Rightarrow> server \<Rightarrow> failure + server \<times> emission list" where
  "connection sid st =
     (if sid \<in> set (map fst (sockets st)) then Inr (st, [])
      else Inr (st\<lparr>sockets := sockets st @ [(sid, [sid])]\<rparr>, []))"

subsection \<open>Events\<close>

datatype event =
    Connection
  | Join_drawing string "string option"
  | Draw_stroke string jsobj int
  | Cursor_move string jsval jsval
  | Undo_stroke string
  | Clear_canvas string
  | Disconnect

text \<open>One event of socket \<open>sid\<close>, processed to completion. Only a connected socket has handlers.\<close>

fun step :: "server \<Rightarrow> string \<Rightarrow> event \<Rightarrow> failure + server \<times> emission list" where
  "step st sid Connection = connection sid st"
| "step st sid ev =
     (if sid \<notin> set (map fst (sockets st)) then Inr (st, [])
      else (case ev of
              Join_drawing drawingId uname \<Rightarrow> join_drawing sid drawingId uname st
            | Draw_stroke drawingId stroke now \<Rightarrow> draw_stroke sid drawingId stroke now st
            | Cursor_move drawingId x y \<Rightarrow> cursor_move sid drawingId x y st
            | Undo_stroke drawingId \<Rightarrow> undo_stroke sid drawingId st
            | Clear_canvas drawingId \<Rightarrow> clear_canvas sid drawingId st
            | Disconnect \<Rightarrow> disconnect sid st
            | Connection \<Rightarrow> connection sid st))"

definition initial :: server where
  "initial = \<lparr>sockets = [], rooms = []\<rparr>"

subsection \<open>Runs\<close>

text \<open>
  The server processes one event after the other; an uncaught exception ends the run.
  The emissions of a run are those of its events, in order.
\<close>

fun run :: "server \<Rightarrow> (string \<times> event) list \<Rightarrow> failure + server \<times> emission list" where
  "run st [] = Inr (st, [])"
| "run st ((sid, ev) # evs) =
     (case step st sid ev of
        Inl e \<Rightarrow> Inl e
      | Inr (st1, out1) \<Rightarrow>
          (case run st1 evs of
             Inl e \<Rightarrow> Inl e
           | Inr (st2, out2) \<Rightarrow> Inr (st2, out1 @ out2)))"

text \<open>The state a handler or a run ends in; \<open>None\<close> when an exception ended it.\<close>

definition state_after :: "failure + server \<times> emission list \<Rightarrow> server option" where
  "state_after res = (case res of Inl e \<Rightarrow> None | Inr (st, out) \<Rightarrow> Some st)"

subsection \<open>Predicates used in the statements\<close>

text \<open>The test of the \<^verbatim>\<open>undo-stroke\<close> filter: \<^verbatim>\<open>stroke.userId === socket.id\<close>.\<close>

definition authored :: "string \<Rightarrow> jsobj \<Rightarrow> bool" where
  "authored sid stroke = (map_of stroke ''userId'' = Some (JStr sid))"

text \<open>The member list of a session, empty when the session is not in the store.\<close>

definition room_users :: "server \<Rightarrow> string \<Rightarrow> user list" where
  "room_users st drawingId =
     (case rooms_get (rooms st) drawingId of Own r \<Rightarrow> users r | _ \<Rightarrow> [])"

text \<open>
  The current room of a socket, as \<^verbatim>\<open>join-drawing\<close> sees it: \<^verbatim>\<open>previousRoom\<close>, the first
  entry of \<^verbatim>\<open>socket.rooms\<close> other than the socket's own id, when it passes
  \<^verbatim>\<open>if (previousRoom)\<close>. This is the room a join makes the socket leave.
\<close>

definition current_room :: "server \<Rightarrow> string \<Rightarrow> string option" where
  "current_room st sid =
     (case find (\<lambda>room. room \<noteq> sid) (socket_rooms st sid) of
        None \<Rightarrow> None
      | Some previousRoom \<Rightarrow> if previousRoom \<noteq> [] then Some previousRoom else None)"

text \<open>A room after \<^verbatim>\<open>removeUserFromRoom\<close> for \<open>userId\<close>: \<open>None\<close> when it is deleted.\<close>

definition without :: "string \<Rightarrow> room \<Rightarrow> room option" where
  "without userId r =
     (case findIndex (\<lambda>u. id_user u = userId) (users r) of
        None \<Rightarrow> Some r
      | Some i \<Rightarrow>
          if splice1 i (users r) = [] then None
          else Some (r\<lparr>users := splice1 i (users r)\<rparr>))"

text \<open>
  What is found under a session id once \<^verbatim>\<open>removeUserFromRoom\<close> has run on it for \<open>userId\<close>,
  from what was found there before.
\<close>

fun after_leaving :: "string \<Rightarrow> room property \<Rightarrow> room property" where
  "after_leaving userId (Own r) =
     (case without userId r of None \<Rightarrow> Absent | Some r' \<Rightarrow> Own r')"
| "after_leaving userId Absent = Absent"
| "after_leaving userId Inherited = Inherited"

text \<open>
  The member list of a room and the Socket.IO room of the same name hold the same
  connections. The handlers address every broadcast to the Socket.IO room, so this is
  what makes \<open>the members\<close> and the sockets that a broadcast to the room can reach the same
  set.
\<close>

definition mirrored :: "server \<Rightarrow> string \<Rightarrow> room \<Rightarrow> bool" where
  "mirrored st drawingId r = (set (in_room st drawingId) = id_user ` set (users r))"

subsection \<open>Well-formed states\<close>

text \<open>
  Two facts about the states the handlers produce. In the store, every room has a member
  and no key is a name that \<^verbatim>\<open>rooms\<close> inherits. In Socket.IO, a socket sits in no room
  with an inherited name, other than possibly the room of its own id. Both hold in every
  state the server reaches, whatever the events (\<open>reachable_server_ok\<close> below).
\<close>

definition store_ok :: "server \<Rightarrow> bool" where
  "store_ok st =
     list_all (\<lambda>(d, r). users r \<noteq> [] \<and> d \<notin> set object_prototype_names) (rooms st)"

definition sockets_ok :: "server \<Rightarrow> bool" where
  "sockets_ok st =
     list_all (\<lambda>(s, rs). list_all (\<lambda>r. r = s \<or> r \<notin> set object_prototype_names) rs)
       (sockets st)"

definition server_ok :: "server \<Rightarrow> bool" where
  "server_ok st = (store_ok st \<and> sockets_ok st)"

text \<open>
  The stronger correspondence between the two pieces of state: a connected socket is in
  its own room only, or in its own room and one session of which it is a member; the
  members of a session have different ids, are connected and are in the room of that
  session; no session is named like a connected socket.
\<close>

definition connected :: "server \<Rightarrow> string set" where
  "connected st = set (map fst (sockets st))"

definition in_step :: "server \<Rightarrow> bool" where
  "in_step st =
     ((\<forall>s \<in> connected st.
          socket_rooms st s = [s]
          \<or> (\<exists>d r. socket_rooms st s = [s, d] \<and> d \<noteq> s \<and> d \<noteq> []
                \<and> map_of (rooms st) d = Some r \<and> s \<in> id_user ` set (users r)))
      \<and> (\<forall>d r. map_of (rooms st) d = Some r \<longrightarrow>
             distinct (map id_user (users r)) \<and> d \<notin> connected st
             \<and> (\<forall>u \<in> set (users r).
                   id_user u \<in> connected st
                   \<and> socket_rooms st (id_user u) = [id_user u, d])))"

text \<open>
  It is kept by events with ordinary ids: a session id is not the empty string (which
  \<^verbatim>\<open>if (previousRoom)\<close> takes for no room) and not the id of a connected socket, and a
  new socket id is not the name of a session.
\<close>

fun ordinary :: "server \<Rightarrow> string \<Rightarrow> event \<Rightarrow> bool" where
  "ordinary st sid Connection = (map_of (rooms st) sid = None)"
| "ordinary st sid (Join_drawing d uname) = (d \<noteq> [] \<and> d \<notin> connected st)"
| "ordinary st sid ev = True"

fun ordinary_run :: "server \<Rightarrow> (string \<times> event) list \<Rightarrow> bool" where
  "ordinary_run st [] = True"
| "ordinary_run st ((sid, ev) # evs) =
     (ordinary st sid ev
      \<and> (case step st sid ev of Inl e \<Rightarrow> True | Inr (st1, out1) \<Rightarrow> ordinary_run st1 evs))"

subsection \<open>Example states\<close>

text \<open>
  Sockets \<open>A\<close> and \<open>B\<close> in session \<open>d\<close> with the log \<open>[A1, B1, A2]\<close>; the same with a third
  socket \<open>C\<close> that has joined nothing, and with \<open>C\<close> alone in session \<open>e\<close>; socket \<open>A\<close> alone
  in \<open>d\<close>, with one stroke and with none; a socket that has joined nothing; nine sockets
  that have joined nothing.
\<close>

definition member :: "string \<Rightarrow> string \<Rightarrow> user" where
  "member sid c = \<lparr>id_user = sid, username = ''User'' @ take 4 sid, color = c\<rparr>"

definition stroke_by :: "string \<Rightarrow> int \<Rightarrow> jsobj" where
  "stroke_by sid t = [(''width'', JNum 3), (''userId'', JStr sid), (''timestamp'', JNum t)]"

definition two_sockets :: "(string \<times> string list) list" where
  "two_sockets = [(''A'', [''A'', ''d'']), (''B'', [''B'', ''d''])]"

definition room_ABA :: room where
  "room_ABA = \<lparr>users = [member ''A'' ''#FF6B6B'', member ''B'' ''#4ECDC4''],
               strokes = [stroke_by ''A'' 1, stroke_by ''B'' 2, stroke_by ''A'' 3]\<rparr>"

definition server_ABA :: server where
  "server_ABA = \<lparr>sockets = two_sockets, rooms = [(''d'', room_ABA)]\<rparr>"

definition server_ABC :: server where
  "server_ABC = \<lparr>sockets = two_sockets @ [(''C'', [''C''])], rooms = [(''d'', room_ABA)]\<rparr>"

definition room_C :: room where
  "room_C = \<lparr>users = [member ''C'' ''#FF6B6B''], strokes = [stroke_by ''C'' 4]\<rparr>"

definition server_ABC_e :: server where
  "server_ABC_e = \<lparr>sockets = two_sockets @ [(''C'', [''C'', ''e''])],
                    rooms = [(''d'', room_ABA), (''e'', room_C)]\<rparr>"

definition room_solo :: room where
  "room_solo = \<lparr>users = [member ''A'' ''#FF6B6B''], strokes = [stroke_by ''A'' 1]\<rparr>"

definition server_solo :: server where
  "server_solo = \<lparr>sockets = [(''A'', [''A'', ''d''])], rooms = [(''d'', room_solo)]\<rparr>"

definition server_joined :: server where
  "server_joined =
     \<lparr>sockets = [(''A'', [''A'', ''d''])],
      rooms = [(''d'', \<lparr>users = [member ''A'' ''#FF6B6B''], strokes = []\<rparr>)]\<rparr>"

definition server_idle :: server where
  "server_idle = \<lparr>sockets = [(''A'', [''A''])], rooms = []\<rparr>"

definition nine_sockets :: "string list" where
  "nine_sockets = [''s0'', ''s1'', ''s2'', ''s3'', ''s4'', ''s5'', ''s6'', ''s7'', ''s8'']"

definition server_nine :: server where
  "server_nine = \<lparr>sockets = map (\<lambda>s. (s, [s])) nine_sockets, rooms = []\<rparr>"

text \<open>
  Socket \<open>C\<close> joins the session named by the empty string, then \<open>d\<close>, which \<open>A\<close> has
  joined, and then the session named \<open>A\<close>, like the socket whose id the room state of \<open>d\<close>
  has shown it: the events, and the state they lead to. \<^verbatim>\<open>if (previousRoom)\<close> takes the
  empty string for no room, so \<open>C\<close> leaves nothing.
\<close>

definition crossed_events :: "(string \<times> event) list" where
  "crossed_events =
     [(''A'', Connection), (''C'', Connection), (''A'', Join_drawing ''d'' None),
      (''C'', Join_drawing [] None), (''C'', Join_drawing ''d'' None),
      (''C'', Join_drawing ''A'' None)]"

definition room_crossed :: room where
  "room_crossed = \<lparr>users = [member ''A'' ''#FF6B6B'', member ''C'' ''#4ECDC4''], strokes = []\<rparr>"

definition server_crossed :: server where
  "server_crossed =
     \<lparr>sockets = [(''A'', [''A'', ''d'']), (''C'', [''C'', [], ''d'', ''A''])],
      rooms = [(''d'', room_crossed),
               ([], \<lparr>users = [member ''C'' ''#FF6B6B''], strokes = []\<rparr>),
               (''A'', \<lparr>users = [member ''C'' ''#FF6B6B''], strokes = []\<rparr>)]\<rparr>"

text \<open>
  Socket \<open>A\<close> joins the session named by the empty string and then \<open>x\<close>: the events, and
  the state they lead to.
\<close>

definition behind_events :: "(string \<times> event) list" where
  "behind_events =
     [(''A'', Connection), (''A'', Join_drawing [] None), (''A'', Join_drawing ''x'' None)]"

definition server_behind :: server where
  "server_behind =
     \<lparr>sockets = [(''A'', [''A'', [], ''x''])],
      rooms = [([], \<lparr>users = [member ''A'' ''#FF6B6B''], strokes = []\<rparr>),
               (''x'', \<lparr>users = [member ''A'' ''#FF6B6B''], strokes = []\<rparr>)]\<rparr>"

section \<open>Properties\<close>

text \<open>The equations that evaluate a join, a leave and a connection on a concrete state.\<close>

lemmas handler_defs =
  join_drawing_def leave_previous_def removeUserFromRoom_def socket_rooms_def
  socket_leave_def socket_join_def rooms_get_def emit_def in_room_def splice1_def
  colors_def connection_def Let_def

subsection \<open>Lookup and delivery\<close>

lemma rooms_get_update_same: "rooms_get (AList.update d r rs) d = Own r"
  by (simp add: rooms_get_def update_conv')

lemma rooms_get_update_other:
  "d' \<noteq> d \<Longrightarrow> rooms_get (AList.update d r rs) d' = rooms_get rs d'"
  by (simp add: rooms_get_def update_conv')

lemma rooms_get_delete_other:
  "d' \<noteq> d \<Longrightarrow> rooms_get (AList.delete d rs) d' = rooms_get rs d'"
  by (simp add: rooms_get_def delete_conv')

lemma rooms_get_delete_same:
  "rooms_get (AList.delete d rs) d =
     (if d \<in> set object_prototype_names then Inherited else Absent)"
  by (simp add: rooms_get_def delete_conv')

lemma in_room_rooms_update: "in_room (st\<lparr>rooms := rs\<rparr>) r = in_room st r"
  by (simp add: in_room_def socket_rooms_def)

lemma resolve_rooms_update: "resolve (st\<lparr>rooms := rs\<rparr>) t = resolve st t"
  by (cases t) (simp_all add: in_room_rooms_update socket_rooms_def)

lemma set_socket_to:
  "set (resolve st (Socket_to sid r)) = set (in_room st r) - set (in_room st sid)"
  by (auto simp: in_room_def)

lemma socket_to_members:
  assumes "mirrored st d r" and "set (in_room st sid) = {sid}"
  shows "set (filter (\<lambda>s. sid \<notin> set (socket_rooms st s)) (in_room st d)) =
           id_user ` set (users r) - {sid}"
  using set_socket_to [of st sid d] assms by (simp add: mirrored_def)

lemma emit_rooms_update: "emit (st\<lparr>rooms := rs\<rparr>) t m = emit st t m"
  by (simp add: emit_def resolve_rooms_update)

subsection \<open>Undo\<close>

lemma with_index_split:
  "with_index n (pre @ s # post) =
     with_index n pre @ (s, n + length pre) # with_index (Suc (n + length pre)) post"
  by (induction pre arbitrary: n) simp_all

lemma filter_with_index_none:
  "list_all (\<lambda>t. \<not> p t) xs \<Longrightarrow> filter (\<lambda>(t, i). p t) (with_index n xs) = []"
  by (induction xs arbitrary: n) simp_all

lemma splice1_middle: "splice1 (length pre) (pre @ s # post) = pre @ post"
  by (simp add: splice1_def)

lemma undo_found:
  assumes own: "rooms_get (rooms st) drawingId = Own r"
    and split: "strokes r = pre @ s # post"
    and mine: "authored sid s"
    and later: "list_all (\<lambda>t. \<not> authored sid t) post"
  shows "undo_stroke sid drawingId st =
           Inr (st\<lparr>rooms := AList.update drawingId (r\<lparr>strokes := pre @ post\<rparr>) (rooms st)\<rparr>,
                [Emission (Io_to drawingId) (Stroke_undone sid (length pre))
                   (in_room st drawingId)])"
proof -
  let ?own = "\<lambda>(stroke, index). map_of stroke ''userId'' = Some (JStr sid)"
  have tail: "filter ?own (with_index (Suc (length pre)) post) = []"
    using filter_with_index_none [OF later] by (simp add: authored_def)
  have "filter ?own (with_index 0 (strokes r)) =
          filter ?own (with_index 0 pre) @ [(s, length pre)]"
    using mine tail by (simp add: split with_index_split authored_def)
  then show ?thesis
    using own
    by (simp add: undo_stroke_def Let_def split splice1_middle emit_def in_room_rooms_update)
qed

lemma undo_nothing:
  assumes own: "rooms_get (rooms st) drawingId = Own r"
    and none: "list_all (\<lambda>t. \<not> authored sid t) (strokes r)"
  shows "undo_stroke sid drawingId st = Inr (st, [])"
  using own filter_with_index_none [OF none]
  by (simp add: undo_stroke_def Let_def authored_def)

text \<open>
  C1. In an existing session, \<^verbatim>\<open>undo-stroke\<close> removes the stroke of highest index whose
  author is the calling socket and keeps every other entry in its place relative to the
  others: a log \<open>pre @ s # post\<close>, with \<open>s\<close> by the caller and nothing of the caller in
  \<open>post\<close>, becomes \<open>pre @ post\<close>. One \<^verbatim>\<open>stroke-undone\<close> event carrying the author id and the
  removed index \<open>length pre\<close> goes to the whole Socket.IO room, the author not excluded;
  where the room mirrors the member list (as it does in every state reached with ordinary
  ids, \<open>reachable_mirrored\<close>) these are exactly the members. With no stroke of the caller
  in the log, the state is returned as it was and nothing is emitted.
\<close>

theorem undo_removes_last_own_stroke:
  assumes "rooms_get (rooms st) drawingId = Own r"
  shows "(strokes r = pre @ s # post \<and> authored sid s
            \<and> list_all (\<lambda>t. \<not> authored sid t) post \<longrightarrow>
          undo_stroke sid drawingId st =
            Inr (st\<lparr>rooms := AList.update drawingId (r\<lparr>strokes := pre @ post\<rparr>) (rooms st)\<rparr>,
                 [Emission (Io_to drawingId) (Stroke_undone sid (length pre))
                    (in_room st drawingId)]))
       \<and> (list_all (\<lambda>t. \<not> authored sid t) (strokes r) \<longrightarrow>
            undo_stroke sid drawingId st = Inr (st, []))
       \<and> (mirrored st drawingId r \<longrightarrow>
            set (in_room st drawingId) = id_user ` set (users r))"
  using assms undo_found undo_nothing by (simp add: mirrored_def)

theorem undo_removes_last_own_stroke_witness:
  "rooms_get (rooms server_ABA) ''d'' = Own room_ABA
   \<and> strokes room_ABA = [stroke_by ''A'' 1, stroke_by ''B'' 2] @ stroke_by ''A'' 3 # []
   \<and> authored ''A'' (stroke_by ''A'' 3)
   \<and> mirrored server_ABA ''d'' room_ABA
   \<and> undo_stroke ''A'' ''d'' server_ABA =
       Inr (server_ABA\<lparr>rooms :=
              [(''d'', room_ABA\<lparr>strokes := [stroke_by ''A'' 1, stroke_by ''B'' 2]\<rparr>)]\<rparr>,
            [Emission (Io_to ''d'') (Stroke_undone ''A'' 2) [''A'', ''B'']])
   \<and> set (in_room server_ABA ''d'') = {''A'', ''B''}"
  using undo_removes_last_own_stroke
    [of server_ABA "''d''" room_ABA "[stroke_by ''A'' 1, stroke_by ''B'' 2]"
        "stroke_by ''A'' 3" "[]" "''A''"]
  by (simp add: server_ABA_def room_ABA_def rooms_get_def authored_def stroke_by_def
      mirrored_def in_room_def socket_rooms_def two_sockets_def member_def)

text \<open>
  The undo sequence of the specification on the log \<open>[A1, B1, A2]\<close>, run on the handler
  itself: \<open>[A1, B1]\<close>, then \<open>[B1]\<close>, then no change; and an undo by \<open>B\<close> on \<open>[A1]\<close> changes
  nothing.
\<close>

lemma undo_scoping_example:
  "undo_stroke ''A'' ''d'' server_ABA =
     Inr (server_ABA\<lparr>rooms :=
            [(''d'', room_ABA\<lparr>strokes := [stroke_by ''A'' 1, stroke_by ''B'' 2]\<rparr>)]\<rparr>,
          [Emission (Io_to ''d'') (Stroke_undone ''A'' 2) [''A'', ''B'']])"
  "undo_stroke ''A'' ''d''
     (server_ABA\<lparr>rooms :=
        [(''d'', room_ABA\<lparr>strokes := [stroke_by ''A'' 1, stroke_by ''B'' 2]\<rparr>)]\<rparr>) =
     Inr (server_ABA\<lparr>rooms := [(''d'', room_ABA\<lparr>strokes := [stroke_by ''B'' 2]\<rparr>)]\<rparr>,
          [Emission (Io_to ''d'') (Stroke_undone ''A'' 0) [''A'', ''B'']])"
  "undo_stroke ''A'' ''d''
     (server_ABA\<lparr>rooms := [(''d'', room_ABA\<lparr>strokes := [stroke_by ''B'' 2]\<rparr>)]\<rparr>) =
     Inr (server_ABA\<lparr>rooms := [(''d'', room_ABA\<lparr>strokes := [stroke_by ''B'' 2]\<rparr>)]\<rparr>, [])"
  "undo_stroke ''B'' ''d''
     (server_ABA\<lparr>rooms := [(''d'', room_ABA\<lparr>strokes := [stroke_by ''A'' 1]\<rparr>)]\<rparr>) =
     Inr (server_ABA\<lparr>rooms := [(''d'', room_ABA\<lparr>strokes := [stroke_by ''A'' 1]\<rparr>)]\<rparr>, [])"
  by (simp_all add: undo_stroke_def server_ABA_def room_ABA_def rooms_get_def stroke_by_def
      splice1_def emit_def in_room_def socket_rooms_def two_sockets_def Let_def)


subsection \<open>Clear\<close>

text \<open>
  C7. In an existing session, \<^verbatim>\<open>clear-canvas\<close> empties the log whatever it holds and
  whoever asks (the sender need not be an author, nor a member), leaves the member list
  and every other session as they were, and emits \<^verbatim>\<open>canvas-cleared\<close> to the whole
  Socket.IO room, the initiator not excluded; where the room mirrors the member list
  (\<open>reachable_mirrored\<close>) these are exactly the members.
\<close>

theorem clear_empties_log:
  assumes "rooms_get (rooms st) drawingId = Own r"
  shows "(\<exists>st' e. clear_canvas sid drawingId st = Inr (st', [e])
            \<and> rooms_get (rooms st') drawingId = Own (r\<lparr>strokes := []\<rparr>)
            \<and> (\<forall>other. other \<noteq> drawingId \<longrightarrow>
                  rooms_get (rooms st') other = rooms_get (rooms st) other)
            \<and> sockets st' = sockets st
            \<and> e = Emission (Io_to drawingId) Canvas_cleared (in_room st drawingId))
       \<and> (mirrored st drawingId r \<longrightarrow>
            set (in_room st drawingId) = id_user ` set (users r))"
  using assms
  by (simp add: clear_canvas_def Let_def emit_def in_room_rooms_update
      rooms_get_update_same rooms_get_update_other mirrored_def)

theorem clear_empties_log_witness:
  "rooms_get (rooms server_ABA) ''d'' = Own room_ABA
   \<and> mirrored server_ABA ''d'' room_ABA
   \<and> (\<exists>st'. clear_canvas ''B'' ''d'' server_ABA =
               Inr (st', [Emission (Io_to ''d'') Canvas_cleared [''A'', ''B'']])
            \<and> rooms_get (rooms st') ''d'' = Own (room_ABA\<lparr>strokes := []\<rparr>))
   \<and> set (in_room server_ABA ''d'') = {''A'', ''B''}"
proof -
  have own: "rooms_get (rooms server_ABA) ''d'' = Own room_ABA"
    by (simp add: server_ABA_def rooms_get_def)
  have inr: "in_room server_ABA ''d'' = [''A'', ''B'']"
    by (simp add: server_ABA_def in_room_def socket_rooms_def two_sockets_def)
  have mir: "mirrored server_ABA ''d'' room_ABA"
    by (simp add: mirrored_def inr room_ABA_def member_def)
  show ?thesis
    using clear_empties_log [OF own, where sid = "''B''"] own mir inr by auto
qed

subsection \<open>Strokes\<close>

lemma draw_stroke_own:
  assumes "rooms_get (rooms st) drawingId = Own r"
  shows "draw_stroke sid drawingId stroke now st =
           Inr (st\<lparr>rooms :=
                     AList.update drawingId
                       (r\<lparr>strokes := strokes r @
                            [AList.update ''timestamp'' (JNum now)
                               (AList.update ''userId'' (JStr sid) stroke)]\<rparr>)
                       (rooms st)\<rparr>,
                [Emission (Socket_to sid drawingId)
                   (Stroke_drawn (AList.update ''userId'' (JStr sid) stroke))
                   (filter (\<lambda>s. sid \<notin> set (socket_rooms st s)) (in_room st drawingId))])"
  using assms
  by (simp add: draw_stroke_def Let_def emit_def in_room_rooms_update socket_rooms_def)



text \<open>
  C8. In an existing session \<^verbatim>\<open>draw-stroke\<close> appends one entry to the log and emits
  \<^verbatim>\<open>stroke-drawn\<close> once, to the sockets of the room that are not in the sender's own room
  (\<open>draw_stroke_own\<close>); where that room holds the sender alone and the Socket.IO room
  mirrors the member list, these are the members other than the sender
  (\<open>socket_to_members\<close>). The handler says \<^verbatim>\<open>Broadcast to all other users in the room\<close>, but
  \<^verbatim>\<open>socket.to\<close> leaves out every socket in the room named by the sender's id, and the
  handlers let another member be in that room. After \<open>crossed_events\<close> sockets \<open>A\<close> and \<open>C\<close>
  are the members of \<open>d\<close> and both are in its Socket.IO room. A stroke of \<open>A\<close> is logged,
  and delivered to nobody.
\<close>

theorem stroke_misses_member_in_senders_room:
  "state_after (run initial crossed_events) = Some server_crossed
   \<and> rooms_get (rooms server_crossed) ''d'' = Own room_crossed
   \<and> map id_user (users room_crossed) = [''A'', ''C'']
   \<and> in_room server_crossed ''d'' = [''A'', ''C'']
   \<and> step server_crossed ''A'' (Draw_stroke ''d'' [(''width'', JNum 5)] 7) =
       Inr (server_crossed\<lparr>rooms :=
              AList.update ''d''
                (room_crossed\<lparr>strokes :=
                   [[(''width'', JNum 5), (''userId'', JStr ''A''), (''timestamp'', JNum 7)]]\<rparr>)
                (rooms server_crossed)\<rparr>,
            [Emission (Socket_to ''A'' ''d'')
               (Stroke_drawn [(''width'', JNum 5), (''userId'', JStr ''A'')]) []])"
proof -
  have "state_after (run initial crossed_events) = Some server_crossed"
    by (simp add: state_after_def crossed_events_def server_crossed_def room_crossed_def
        initial_def member_def handler_defs object_prototype_names_def)
  moreover have "rooms_get (rooms server_crossed) ''d'' = Own room_crossed"
    by (simp add: server_crossed_def rooms_get_def)
  moreover have "map id_user (users room_crossed) = [''A'', ''C'']"
    by (simp add: room_crossed_def member_def)
  moreover have "in_room server_crossed ''d'' = [''A'', ''C'']"
    by (simp add: server_crossed_def in_room_def socket_rooms_def)
  moreover have "step server_crossed ''A'' (Draw_stroke ''d'' [(''width'', JNum 5)] 7) =
       Inr (server_crossed\<lparr>rooms :=
              AList.update ''d''
                (room_crossed\<lparr>strokes :=
                   [[(''width'', JNum 5), (''userId'', JStr ''A''), (''timestamp'', JNum 7)]]\<rparr>)
                (rooms server_crossed)\<rparr>,
            [Emission (Socket_to ''A'' ''d'')
               (Stroke_drawn [(''width'', JNum 5), (''userId'', JStr ''A'')]) []])"
    by (simp add: draw_stroke_def server_crossed_def room_crossed_def rooms_get_def emit_def
        in_room_def socket_rooms_def Let_def)
  ultimately show ?thesis
    by (intro conjI)
qed

text \<open>
  C9. The author of a logged stroke is assigned by the server. In an existing session,
  for every payload, with or without a \<^verbatim>\<open>userId\<close> property of its own, the entry that
  \<^verbatim>\<open>draw-stroke\<close> appends has \<^verbatim>\<open>userId\<close> equal to the id of the sending socket, so it passes
  the undo filter of that socket and of no other; the copy that is broadcast carries the
  same \<^verbatim>\<open>userId\<close>.
\<close>

theorem stroke_author_is_sender:
  assumes "rooms_get (rooms st) drawingId = Own r"
  shows "\<exists>st' entry payload rcv.
           draw_stroke sid drawingId stroke now st =
             Inr (st', [Emission (Socket_to sid drawingId) (Stroke_drawn payload) rcv])
           \<and> rooms_get (rooms st') drawingId = Own (r\<lparr>strokes := strokes r @ [entry]\<rparr>)
           \<and> map_of entry ''userId'' = Some (JStr sid)
           \<and> (\<forall>other. authored other entry \<longleftrightarrow> other = sid)
           \<and> map_of payload ''userId'' = Some (JStr sid)"
  using draw_stroke_own [OF assms]
  by (auto simp: rooms_get_update_same update_conv' authored_def)

theorem stroke_author_is_sender_witness:
  "rooms_get (rooms server_ABA) ''d'' = Own room_ABA
   \<and> (\<exists>st' entry payload rcv.
         draw_stroke ''A'' ''d'' [(''userId'', JStr ''B''), (''width'', JNum 5)] 4 server_ABA =
           Inr (st', [Emission (Socket_to ''A'' ''d'') (Stroke_drawn payload) rcv])
         \<and> rooms_get (rooms st') ''d'' = Own (room_ABA\<lparr>strokes := strokes room_ABA @ [entry]\<rparr>)
         \<and> map_of entry ''userId'' = Some (JStr ''A'')
         \<and> \<not> authored ''B'' entry)"
proof -
  have own: "rooms_get (rooms server_ABA) ''d'' = Own room_ABA"
    by (simp add: server_ABA_def rooms_get_def)
  show ?thesis
    using stroke_author_is_sender
      [OF own, where sid = "''A''" and now = 4
         and stroke = "[(''userId'', JStr ''B''), (''width'', JNum 5)]"] own
    by (elim exE conjE, intro conjI exI) (assumption | simp)+
qed

subsection \<open>Cursor\<close>



subsection \<open>Events on a session that is not in the store\<close>

lemma absent_session_is_noop:
  assumes "rooms_get (rooms st) drawingId = Absent"
  shows "draw_stroke sid drawingId stroke now st = Inr (st, [])"
    and "undo_stroke sid drawingId st = Inr (st, [])"
    and "clear_canvas sid drawingId st = Inr (st, [])"
    and "cursor_move sid drawingId x y st = Inr (st, [])"
  using assms
  by (simp_all add: draw_stroke_def undo_stroke_def clear_canvas_def cursor_move_def)

text \<open>
  C5. The guard \<^verbatim>\<open>if (rooms[drawingId])\<close> of the four handlers is meant to skip a session
  that is not in the store. It does so for every id that \<^verbatim>\<open>rooms\<close> does not inherit
  (\<open>absent_session_is_noop\<close>), but not for the names of \<^verbatim>\<open>Object.prototype\<close>: with an
  empty store and the id \<^verbatim>\<open>constructor\<close>, \<^verbatim>\<open>draw-stroke\<close>, \<^verbatim>\<open>undo-stroke\<close> and
  \<^verbatim>\<open>cursor-move\<close> raise a \<^verbatim>\<open>TypeError\<close>, and \<^verbatim>\<open>clear-canvas\<close> writes to the built-in.
\<close>

theorem absent_guard_passes_inherited_names:
  "map_of (rooms server_idle) ''constructor'' = None
   \<and> step server_idle ''A'' (Draw_stroke ''constructor'' [] 0) = Inl TypeError
   \<and> step server_idle ''A'' (Undo_stroke ''constructor'') = Inl TypeError
   \<and> step server_idle ''A'' (Cursor_move ''constructor'' (JNum 0) (JNum 0)) = Inl TypeError
   \<and> step server_idle ''A'' (Clear_canvas ''constructor'') = Inl Builtin_write"
  by (simp add: server_idle_def draw_stroke_def undo_stroke_def cursor_move_def
      clear_canvas_def rooms_get_def object_prototype_names_def)

subsection \<open>Leaving a room\<close>

lemma findIndex_None: "findIndex p xs = None \<longleftrightarrow> (\<forall>x\<in>set xs. \<not> p x)"
  by (induction xs) (auto split: option.splits)

lemma findIndex_Some:
  "findIndex p xs = Some i \<Longrightarrow> i < length xs \<and> p (xs ! i)"
  by (induction xs arbitrary: i) (auto split: if_splits option.splits)

lemma length_splice1: "i < length xs \<Longrightarrow> length (splice1 i xs) = length xs - 1"
  by (simp add: splice1_def)

lemma findIndex_first:
  "p x \<Longrightarrow> \<forall>y\<in>set pre. \<not> p y \<Longrightarrow> findIndex p (pre @ x # post) = Some (length pre)"
  by (induction pre) simp_all

lemma member_first:
  assumes "sid \<in> id_user ` set us"
  shows "\<exists>pre x post. us = pre @ x # post \<and> id_user x = sid \<and> sid \<notin> id_user ` set pre"
proof -
  from assms have "\<exists>x\<in>set us. id_user x = sid"
    by auto
  then obtain pre x post where "us = pre @ x # post" "id_user x = sid"
    "\<forall>y\<in>set pre. id_user y \<noteq> sid"
    by (rule split_list_first_propE)
  then show ?thesis
    by (intro exI [of _ pre] exI [of _ x] exI [of _ post]) auto
qed

lemma removeUserFromRoom_cases:
  obtains
    (absent) "rooms_get (rooms st) d = Absent" "removeUserFromRoom d u st = Inr (st, [])"
  | (inherited) "rooms_get (rooms st) d = Inherited" "removeUserFromRoom d u st = Inl TypeError"
  | (stranger) r where "rooms_get (rooms st) d = Own r" "u \<notin> id_user ` set (users r)"
      "removeUserFromRoom d u st = Inr (st, [])"
  | (last_member) r i where "rooms_get (rooms st) d = Own r"
      "findIndex (\<lambda>x. id_user x = u) (users r) = Some i" "splice1 i (users r) = []"
      "removeUserFromRoom d u st =
         Inr (st\<lparr>rooms := AList.delete d (rooms st)\<rparr>,
              [Emission (Io_to d) (User_left u (username (users r ! i))) (in_room st d)])"
  | (member) r i where "rooms_get (rooms st) d = Own r"
      "findIndex (\<lambda>x. id_user x = u) (users r) = Some i" "splice1 i (users r) \<noteq> []"
      "removeUserFromRoom d u st =
         Inr (st\<lparr>rooms := AList.update d (r\<lparr>users := splice1 i (users r)\<rparr>) (rooms st)\<rparr>,
              [Emission (Io_to d) (User_left u (username (users r ! i))) (in_room st d)])"
proof (cases "rooms_get (rooms st) d")
  case Absent
  then show ?thesis using absent by (simp add: removeUserFromRoom_def)
next
  case Inherited
  then show ?thesis using inherited by (simp add: removeUserFromRoom_def)
next
  case (Own r)
  show ?thesis
  proof (cases "findIndex (\<lambda>x. id_user x = u) (users r)")
    case None
    then have "u \<notin> id_user ` set (users r)"
      by (auto simp: findIndex_None)
    with None Own show ?thesis
      using stranger by (simp add: removeUserFromRoom_def)
  next
    case (Some i)
    show ?thesis
    proof (cases "splice1 i (users r) = []")
      case True
      with Own Some show ?thesis
        using last_member [of r i]
        by (simp add: removeUserFromRoom_def Let_def emit_def in_room_rooms_update
            delete_update_same)
    next
      case False
      with Own Some show ?thesis
        using member [of r i]
        by (simp add: removeUserFromRoom_def Let_def emit_def in_room_rooms_update)
    qed
  qed
qed

lemma rooms_get_Own_mem: "rooms_get rs d = Own r \<Longrightarrow> (d, r) \<in> set rs"
  by (auto simp: rooms_get_def split: option.splits if_splits dest: map_of_SomeD)

lemma rooms_get_Inherited_name:
  "rooms_get rs d = Inherited \<Longrightarrow> d \<in> set object_prototype_names"
  by (auto simp: rooms_get_def split: option.splits if_splits)

lemma store_ok_Own:
  "store_ok st \<Longrightarrow> rooms_get (rooms st) d = Own r \<Longrightarrow>
     users r \<noteq> [] \<and> d \<notin> set object_prototype_names"
  by (auto simp: store_ok_def list_all_iff dest!: rooms_get_Own_mem)

lemma list_all_update:
  "list_all P al \<Longrightarrow> P (k, v) \<Longrightarrow> list_all P (AList.update k v al)"
  by (induction al) auto

lemma list_all_delete: "list_all P al \<Longrightarrow> list_all P (AList.delete k al)"
  by (induction al) auto

lemma store_ok_update:
  "store_ok st \<Longrightarrow> users r \<noteq> [] \<Longrightarrow> d \<notin> set object_prototype_names \<Longrightarrow>
     store_ok (st\<lparr>rooms := AList.update d r (rooms st)\<rparr>)"
  by (simp add: store_ok_def list_all_update)

lemma store_ok_delete: "store_ok st \<Longrightarrow> store_ok (st\<lparr>rooms := AList.delete d (rooms st)\<rparr>)"
  by (simp add: store_ok_def list_all_delete)

text \<open>
  What \<^verbatim>\<open>removeUserFromRoom\<close> does to a room that has the user: the first entry with that id
  goes, the others stay as they are, and the room is deleted exactly when none is left.
\<close>

lemma removeUserFromRoom_first:
  assumes "rooms_get (rooms st) d = Own r" and "users r = pre @ x # post"
    and "id_user x = sid" and "sid \<notin> id_user ` set pre"
  shows "removeUserFromRoom d sid st =
           Inr (st\<lparr>rooms := (if pre @ post = [] then AList.delete d (rooms st)
                              else AList.update d (r\<lparr>users := pre @ post\<rparr>) (rooms st))\<rparr>,
                [Emission (Io_to d) (User_left sid (username x)) (in_room st d)])"
proof -
  have "findIndex (\<lambda>u. id_user u = sid) (users r) = Some (length pre)"
    unfolding assms(2) using assms(3,4) by (intro findIndex_first) (auto simp: image_iff)
  moreover have "splice1 (length pre) (users r) = pre @ post" "users r ! length pre = x"
    unfolding assms(2) by (simp_all add: splice1_middle)
  ultimately show ?thesis
    using assms(1)
    by (simp add: removeUserFromRoom_def Let_def emit_def in_room_rooms_update
        delete_update_same)
qed

lemma removeUserFromRoom_returns:
  "d \<notin> set object_prototype_names \<Longrightarrow> \<exists>st' out. removeUserFromRoom d u st = Inr (st', out)"
  by (cases rule: removeUserFromRoom_cases [of st d u])
    (auto dest: rooms_get_Inherited_name)

lemma removeUserFromRoom_sockets:
  "removeUserFromRoom d u st = Inr (st', out) \<Longrightarrow> sockets st' = sockets st"
  by (cases rule: removeUserFromRoom_cases [of st d u]) auto

lemma removeUserFromRoom_other:
  "removeUserFromRoom d u st = Inr (st', out) \<Longrightarrow> d' \<noteq> d \<Longrightarrow>
     rooms_get (rooms st') d' = rooms_get (rooms st) d'"
  by (cases rule: removeUserFromRoom_cases [of st d u])
    (auto simp: rooms_get_update_other rooms_get_delete_other)

lemma removeUserFromRoom_store_ok:
  assumes "removeUserFromRoom d u st = Inr (st', out)" and "store_ok st"
  shows "store_ok st'"
  using assms
  by (cases rule: removeUserFromRoom_cases [of st d u])
    (auto simp: store_ok_delete intro!: store_ok_update dest: store_ok_Own)

lemma removeUserFromRoom_stranger:
  assumes "rooms_get (rooms st) d = Own r" and "u \<notin> id_user ` set (users r)"
  shows "removeUserFromRoom d u st = Inr (st, [])"
proof -
  have "findIndex (\<lambda>x. id_user x = u) (users r) = None"
    using assms(2) by (auto simp: findIndex_None)
  with assms(1) show ?thesis
    by (simp add: removeUserFromRoom_def)
qed

lemma removeUserFromRoom_stays_absent:
  "removeUserFromRoom k u st = Inr (st', out) \<Longrightarrow> rooms_get (rooms st) d = Absent \<Longrightarrow>
     rooms_get (rooms st') d = Absent"
  by (cases "k = d") (auto simp: removeUserFromRoom_def removeUserFromRoom_other)

lemma removeUserFromRoom_sole:
  assumes "rooms_get (rooms st) d = Own r" and "users r = [x]" and "id_user x = u"
    and "d \<notin> set object_prototype_names"
  shows "\<exists>out. removeUserFromRoom d u st = Inr (st\<lparr>rooms := AList.delete d (rooms st)\<rparr>, out)"
    and "rooms_get (AList.delete d (rooms st)) d = Absent"
  using assms
  by (simp_all add: removeUserFromRoom_def Let_def splice1_def delete_update_same
      rooms_get_delete_same)


subsection \<open>Socket.IO rooms of a socket\<close>

lemma socket_join_simps:
  "rooms (socket_join sid d st) = rooms st"
  "map fst (sockets (socket_join sid d st)) = map fst (sockets st)"
  by (auto simp: socket_join_def)

lemma socket_leave_simps:
  "rooms (socket_leave sid d st) = rooms st"
  "map fst (sockets (socket_leave sid d st)) = map fst (sockets st)"
  by (auto simp: socket_leave_def)

lemma sockets_ok_rooms_update: "sockets_ok (st\<lparr>rooms := rs\<rparr>) = sockets_ok st"
  by (simp add: sockets_ok_def)

lemma store_ok_sockets_update: "store_ok (st\<lparr>sockets := ss\<rparr>) = store_ok st"
  by (simp add: store_ok_def)

lemma sockets_ok_leave: "sockets_ok st \<Longrightarrow> sockets_ok (socket_leave sid d st)"
  by (fastforce simp: sockets_ok_def socket_leave_def list_all_iff split: if_splits)

lemma sockets_ok_join:
  "sockets_ok st \<Longrightarrow> d = sid \<or> d \<notin> set object_prototype_names \<Longrightarrow>
     sockets_ok (socket_join sid d st)"
  by (fastforce simp: sockets_ok_def socket_join_def list_all_iff split: if_splits)

lemma socket_rooms_ok:
  assumes "sockets_ok st" and "p \<in> set (socket_rooms st sid)" and "p \<noteq> sid"
  shows "p \<notin> set object_prototype_names"
proof (cases "map_of (sockets st) sid")
  case None
  with assms(2) show ?thesis by (simp add: socket_rooms_def)
next
  case (Some rs)
  then have "(sid, rs) \<in> set (sockets st)"
    by (rule map_of_SomeD)
  with assms(1) have "list_all (\<lambda>r. r = sid \<or> r \<notin> set object_prototype_names) rs"
    by (auto simp: sockets_ok_def list_all_iff)
  with assms(2,3) Some show ?thesis
    by (auto simp: socket_rooms_def list_all_iff)
qed

subsection \<open>The leave step of a join\<close>

lemma find_SomeD: "find P xs = Some x \<Longrightarrow> x \<in> set xs \<and> P x"
  by (induction xs) (auto split: if_splits)

lemma leave_previous_cases:
  obtains
    (stay) "leave_previous sid st = Inr (st, [])"
      "\<forall>p. find (\<lambda>room. room \<noteq> sid) (socket_rooms st sid) = Some p \<longrightarrow> p = []"
  | (leave) p where "find (\<lambda>room. room \<noteq> sid) (socket_rooms st sid) = Some p" "p \<noteq> []"
      "leave_previous sid st = removeUserFromRoom p sid (socket_leave sid p st)"
  by (cases "find (\<lambda>room. room \<noteq> sid) (socket_rooms st sid)")
    (auto simp: leave_previous_def)

lemma leave_previous_returns:
  assumes "sockets_ok st"
  shows "\<exists>st1 out1. leave_previous sid st = Inr (st1, out1)"
proof (cases rule: leave_previous_cases [of sid st])
  case stay
  then show ?thesis by simp
next
  case (leave p)
  then have "p \<in> set (socket_rooms st sid)" and "p \<noteq> sid"
    by (auto dest: find_SomeD)
  then have "p \<notin> set object_prototype_names"
    using assms by (rule socket_rooms_ok [rotated])
  then show ?thesis
    using leave(3) removeUserFromRoom_returns by simp
qed

lemma leave_previous_connected:
  "leave_previous sid st = Inr (st1, out1) \<Longrightarrow> map fst (sockets st1) = map fst (sockets st)"
  by (cases rule: leave_previous_cases [of sid st])
    (auto dest!: removeUserFromRoom_sockets simp: socket_leave_simps)

lemma leave_previous_store_ok:
  "leave_previous sid st = Inr (st1, out1) \<Longrightarrow> store_ok st \<Longrightarrow> store_ok st1"
  by (cases rule: leave_previous_cases [of sid st])
    (auto dest!: removeUserFromRoom_store_ok simp: store_ok_def socket_leave_simps)

lemma leave_previous_sockets_ok:
  assumes "leave_previous sid st = Inr (st1, out1)" and "sockets_ok st"
  shows "sockets_ok st1"
proof (cases rule: leave_previous_cases [of sid st])
  case stay
  with assms show ?thesis by simp
next
  case (leave p)
  with assms(1) have "sockets st1 = sockets (socket_leave sid p st)"
    by (auto dest: removeUserFromRoom_sockets)
  then show ?thesis
    using sockets_ok_leave [OF assms(2), of sid p] by (simp add: sockets_ok_def)
qed

lemma leave_previous_other:
  assumes "leave_previous sid st = Inr (st1, out1)"
    and "find (\<lambda>room. room \<noteq> sid) (socket_rooms st sid) \<noteq> Some d"
  shows "rooms_get (rooms st1) d = rooms_get (rooms st) d"
proof (cases rule: leave_previous_cases [of sid st])
  case stay
  with assms show ?thesis by simp
next
  case (leave p)
  with assms have "removeUserFromRoom p sid (socket_leave sid p st) = Inr (st1, out1)"
    and "d \<noteq> p"
    by auto
  then show ?thesis
    using removeUserFromRoom_other [of p sid "socket_leave sid p st" st1 out1 d]
    by (simp add: socket_leave_simps)
qed

lemma leave_previous_stranger:
  assumes "leave_previous sid st = Inr (st1, out1)"
    and "rooms_get (rooms st) d = Own r" and "sid \<notin> id_user ` set (users r)"
  shows "rooms_get (rooms st1) d = Own r"
proof (cases "find (\<lambda>room. room \<noteq> sid) (socket_rooms st sid) = Some d \<and> d \<noteq> []")
  case True
  then have "leave_previous sid st = removeUserFromRoom d sid (socket_leave sid d st)"
    by (simp add: leave_previous_def)
  moreover have "removeUserFromRoom d sid (socket_leave sid d st) =
      Inr (socket_leave sid d st, [])"
    using assms(2,3) by (intro removeUserFromRoom_stranger) (simp_all add: socket_leave_simps)
  ultimately show ?thesis
    using assms(1,2) by (auto simp: socket_leave_simps)
next
  case False
  show ?thesis
  proof (cases rule: leave_previous_cases [of sid st])
    case stay
    with assms show ?thesis by simp
  next
    case (leave p)
    with False have "d \<noteq> p" by auto
    with leave assms(1) have "rooms_get (rooms st1) d = rooms_get (rooms (socket_leave sid p st)) d"
      using removeUserFromRoom_other [of p sid "socket_leave sid p st" st1 out1 d] by simp
    with assms(2) show ?thesis by (simp add: socket_leave_simps)
  qed
qed

lemma leave_previous_stays_absent:
  assumes "leave_previous sid st = Inr (st1, out1)" and "rooms_get (rooms st) d = Absent"
  shows "rooms_get (rooms st1) d = Absent"
proof (cases rule: leave_previous_cases [of sid st])
  case stay
  with assms show ?thesis by simp
next
  case (leave p)
  with assms show ?thesis
    using removeUserFromRoom_stays_absent [of p sid "socket_leave sid p st" st1 out1 d]
    by (simp add: socket_leave_simps)
qed

subsection \<open>Joining\<close>

lemma length_colors: "length colors = 8"
  by (simp add: colors_def)

lemma join_existing:
  assumes "leave_previous sid st = Inr (st1, out1)" and "rooms_get (rooms st1) d = Own r"
  shows "\<exists>out u. join_drawing sid d uname st =
            Inr ((socket_join sid d st1)
                   \<lparr>rooms := AList.update d (r\<lparr>users := users r @ [u]\<rparr>) (rooms st1)\<rparr>, out)
          \<and> id_user u = sid \<and> color u = colors ! (length (users r) mod 8)"
proof -
  let ?u = "\<lparr>id_user = sid,
             username = (case uname of
                           None \<Rightarrow> ''User'' @ take 4 sid
                         | Some n \<Rightarrow> if n \<noteq> [] then n else ''User'' @ take 4 sid),
             color = colors ! (length (users r) mod 8)\<rparr>"
  show ?thesis
    using assms
    by (simp add: join_drawing_def Let_def socket_join_simps length_colors)
      (rule exI [of _ ?u], simp)
qed

lemma join_fresh:
  assumes "leave_previous sid st = Inr (st1, out1)" and "rooms_get (rooms st1) d = Absent"
  shows "\<exists>out u. join_drawing sid d uname st =
            Inr ((socket_join sid d st1)
                   \<lparr>rooms := AList.update d \<lparr>users = [u], strokes = []\<rparr> (rooms st1)\<rparr>, out)
          \<and> id_user u = sid \<and> color u = colors ! 0"
proof -
  let ?u = "\<lparr>id_user = sid,
             username = (case uname of
                           None \<Rightarrow> ''User'' @ take 4 sid
                         | Some n \<Rightarrow> if n \<noteq> [] then n else ''User'' @ take 4 sid),
             color = colors ! 0\<rparr>"
  show ?thesis
    using assms
    by (simp add: join_drawing_def Let_def socket_join_simps length_colors
        rooms_get_update_same)
      (rule exI [of _ ?u], simp)
qed

lemma join_inherited:
  assumes "leave_previous sid st = Inr (st1, out1)" and "rooms_get (rooms st1) d = Inherited"
  shows "join_drawing sid d uname st = Inl TypeError"
  using assms by (simp add: join_drawing_def Let_def socket_join_simps)


lemma rooms_get_Absent_name:
  "rooms_get rs d = Absent \<Longrightarrow> d \<notin> set object_prototype_names"
  by (auto simp: rooms_get_def split: option.splits if_splits)

lemma join_drawing_cases:
  assumes "join_drawing sid d uname st = Inr (st', out)"
  obtains st1 out1 base u where
    "leave_previous sid st = Inr (st1, out1)"
    "rooms_get (rooms st1) d = Own base
       \<or> rooms_get (rooms st1) d = Absent \<and> base = \<lparr>users = [], strokes = []\<rparr>"
    "st' = (socket_join sid d st1)
             \<lparr>rooms := AList.update d (base\<lparr>users := users base @ [u]\<rparr>) (rooms st1)\<rparr>"
    "id_user u = sid"
    "color u = colors ! (length (users base) mod 8)"
proof (cases "leave_previous sid st")
  case (Inl e)
  with assms show ?thesis by (simp add: join_drawing_def)
next
  case (Inr res)
  then obtain st1 out1 where lp: "leave_previous sid st = Inr (st1, out1)"
    by (cases res) simp
  show ?thesis
  proof (cases "rooms_get (rooms st1) d")
    case Absent
    from join_fresh [OF lp Absent, of uname] assms that [OF lp, of "\<lparr>users = [], strokes = []\<rparr>"] Absent
    show ?thesis by auto
  next
    case Inherited
    from join_inherited [OF lp Inherited, of uname] assms show ?thesis by simp
  next
    case (Own r)
    from join_existing [OF lp Own, of uname] assms that [OF lp, of r] Own
    show ?thesis by auto
  qed
qed

lemma join_drawing_store_ok:
  assumes "join_drawing sid d uname st = Inr (st', out)" and "store_ok st"
  shows "store_ok st'"
proof -
  from assms(1) obtain st1 out1 base u where
    lp: "leave_previous sid st = Inr (st1, out1)"
    and base: "rooms_get (rooms st1) d = Own base
       \<or> rooms_get (rooms st1) d = Absent \<and> base = \<lparr>users = [], strokes = []\<rparr>"
    and st': "st' = (socket_join sid d st1)
             \<lparr>rooms := AList.update d (base\<lparr>users := users base @ [u]\<rparr>) (rooms st1)\<rparr>"
    by (rule join_drawing_cases)
  have ok1: "store_ok st1"
    using lp assms(2) by (rule leave_previous_store_ok)
  have name: "d \<notin> set object_prototype_names"
    using base ok1 by (auto dest: store_ok_Own rooms_get_Absent_name)
  have "list_all (\<lambda>(d, r). users r \<noteq> [] \<and> d \<notin> set object_prototype_names)
          (AList.update d (base\<lparr>users := users base @ [u]\<rparr>) (rooms st1))"
    using ok1 name by (intro list_all_update) (simp_all add: store_ok_def)
  then show ?thesis
    by (simp add: st' store_ok_def)
qed

lemma join_drawing_sockets_ok:
  assumes "join_drawing sid d uname st = Inr (st', out)" and "store_ok st" and "sockets_ok st"
  shows "sockets_ok st'"
proof -
  from assms(1) obtain st1 out1 base u where
    lp: "leave_previous sid st = Inr (st1, out1)"
    and base: "rooms_get (rooms st1) d = Own base
       \<or> rooms_get (rooms st1) d = Absent \<and> base = \<lparr>users = [], strokes = []\<rparr>"
    and st': "st' = (socket_join sid d st1)
             \<lparr>rooms := AList.update d (base\<lparr>users := users base @ [u]\<rparr>) (rooms st1)\<rparr>"
    by (rule join_drawing_cases)
  have ok1: "store_ok st1"
    using lp assms(2) by (rule leave_previous_store_ok)
  have name: "d \<notin> set object_prototype_names"
    using base ok1 by (auto dest: store_ok_Own rooms_get_Absent_name)
  have "sockets_ok st1"
    using lp assms(3) by (rule leave_previous_sockets_ok)
  then have "sockets_ok (socket_join sid d st1)"
    using name by (intro sockets_ok_join) simp_all
  then show ?thesis
    by (simp add: st' sockets_ok_rooms_update)
qed

lemma join_drawing_connected:
  assumes "join_drawing sid d uname st = Inr (st', out)"
  shows "map fst (sockets st') = map fst (sockets st)"
proof -
  from assms obtain st1 out1 base u where
    lp: "leave_previous sid st = Inr (st1, out1)"
    and st': "st' = (socket_join sid d st1)
             \<lparr>rooms := AList.update d (base\<lparr>users := users base @ [u]\<rparr>) (rooms st1)\<rparr>"
    by (rule join_drawing_cases)
  show ?thesis
    using leave_previous_connected [OF lp] by (simp add: st' socket_join_simps)
qed

subsection \<open>Disconnecting\<close>

lemma set_object_keys: "set (object_keys rs) = fst ` set rs"
  by (auto simp: object_keys_def Let_def)

lemma remove_from_each_returns:
  "list_all (\<lambda>k. k \<notin> set object_prototype_names) ks \<Longrightarrow>
     \<exists>st' out. remove_from_each ks u st = Inr (st', out)"
proof (induction ks arbitrary: st)
  case Nil
  then show ?case by simp
next
  case (Cons k ks)
  then obtain st1 out1 where "removeUserFromRoom k u st = Inr (st1, out1)"
    using removeUserFromRoom_returns [of k u st] by auto
  moreover obtain st2 out2 where "remove_from_each ks u st1 = Inr (st2, out2)"
    using Cons.IH [of st1] Cons.prems by auto
  ultimately show ?case by simp
qed

lemma remove_from_each_Cons:
  assumes "remove_from_each (k # ks) u st = Inr (st', out)"
  obtains st1 out1 out2 where "removeUserFromRoom k u st = Inr (st1, out1)"
    "remove_from_each ks u st1 = Inr (st', out2)"
  using assms by (auto split: sum.splits)

lemma remove_from_each_store_ok:
  "remove_from_each ks u st = Inr (st', out) \<Longrightarrow> store_ok st \<Longrightarrow> store_ok st'"
proof (induction ks arbitrary: st out)
  case Nil
  then show ?case by simp
next
  case (Cons k ks)
  from Cons.prems(1) obtain st1 out1 out2 where
    "removeUserFromRoom k u st = Inr (st1, out1)" "remove_from_each ks u st1 = Inr (st', out2)"
    by (rule remove_from_each_Cons)
  then show ?case
    using Cons.IH [of st1 out2] Cons.prems(2) removeUserFromRoom_store_ok by blast
qed

lemma remove_from_each_sockets:
  "remove_from_each ks u st = Inr (st', out) \<Longrightarrow> sockets st' = sockets st"
proof (induction ks arbitrary: st out)
  case Nil
  then show ?case by simp
next
  case (Cons k ks)
  from Cons.prems(1) obtain st1 out1 out2 where
    "removeUserFromRoom k u st = Inr (st1, out1)" "remove_from_each ks u st1 = Inr (st', out2)"
    by (rule remove_from_each_Cons)
  then show ?case
    using Cons.IH [of st1 out2] removeUserFromRoom_sockets [of k u st st1 out1] by simp
qed

lemma remove_from_each_stays_absent:
  "remove_from_each ks u st = Inr (st', out) \<Longrightarrow> rooms_get (rooms st) d = Absent \<Longrightarrow>
     rooms_get (rooms st') d = Absent"
proof (induction ks arbitrary: st out)
  case Nil
  then show ?case by simp
next
  case (Cons k ks)
  from Cons.prems(1) obtain st1 out1 out2 where
    "removeUserFromRoom k u st = Inr (st1, out1)" "remove_from_each ks u st1 = Inr (st', out2)"
    by (rule remove_from_each_Cons)
  then show ?case
    using Cons.IH [of st1 out2] Cons.prems(2)
      removeUserFromRoom_stays_absent [of k u st st1 out1 d] by simp
qed

lemma remove_from_each_sole:
  assumes "remove_from_each ks u st = Inr (st', out)" and "d \<in> set ks"
    and "rooms_get (rooms st) d = Own r" and "users r = [x]" and "id_user x = u"
    and "d \<notin> set object_prototype_names"
  shows "rooms_get (rooms st') d = Absent"
  using assms(1,2,3)
proof (induction ks arbitrary: st out)
  case Nil
  then show ?case by simp
next
  case (Cons k ks)
  from Cons.prems(1) obtain st1 out1 out2 where
    step: "removeUserFromRoom k u st = Inr (st1, out1)"
    and rest: "remove_from_each ks u st1 = Inr (st', out2)"
    by (rule remove_from_each_Cons)
  show ?case
  proof (cases "k = d")
    case True
    have "rooms_get (rooms st1) d = Absent"
      using removeUserFromRoom_sole [OF Cons.prems(3) assms(4,5,6)] step True by auto
    with rest show ?thesis
      by (rule remove_from_each_stays_absent)
  next
    case False
    then have "rooms_get (rooms st1) d = Own r" and "d \<in> set ks"
      using removeUserFromRoom_other [OF step, of d] Cons.prems(2,3) by auto
    with rest show ?thesis
      using Cons.IH [of st1 out2] by simp
  qed
qed

lemma disconnect_returns:
  assumes "store_ok st"
  shows "\<exists>st' out. disconnect sid st = Inr (st', out)"
proof -
  have "list_all (\<lambda>k. k \<notin> set object_prototype_names) (object_keys (rooms st))"
    using assms by (auto simp: list_all_iff set_object_keys store_ok_def)
  then show ?thesis
    unfolding disconnect_def by (rule remove_from_each_returns)
qed

lemma disconnect_store_ok:
  "disconnect sid st = Inr (st', out) \<Longrightarrow> store_ok st \<Longrightarrow> store_ok st'"
  unfolding disconnect_def
  by (erule remove_from_each_store_ok) (simp add: store_ok_def)

lemma disconnect_sockets:
  "disconnect sid st = Inr (st', out) \<Longrightarrow> sockets st' = AList.delete sid (sockets st)"
  unfolding disconnect_def by (drule remove_from_each_sockets) simp

lemma disconnect_sole:
  assumes "disconnect sid st = Inr (st', out)" and "store_ok st"
    and "rooms_get (rooms st) d = Own r" and "users r = [x]" and "id_user x = sid"
  shows "rooms_get (rooms st') d = Absent"
proof -
  have "d \<in> set (object_keys (rooms st))"
    using rooms_get_Own_mem [OF assms(3)] by (force simp: set_object_keys)
  moreover have "d \<notin> set object_prototype_names"
    using store_ok_Own [OF assms(2,3)] by simp
  ultimately show ?thesis
    using assms(1,3,4,5) unfolding disconnect_def
    by (intro remove_from_each_sole
          [where r = r and x = x and st = "st\<lparr>sockets := AList.delete sid (sockets st)\<rparr>"])
       simp_all
qed

subsection \<open>Every event keeps the state well-formed\<close>

lemma store_ok_initial: "store_ok initial" "sockets_ok initial"
  by (simp_all add: store_ok_def sockets_ok_def initial_def)

lemma step_store_ok:
  assumes "step st sid ev = Inr (st', out)" and "store_ok st"
  shows "store_ok st'"
proof (cases ev)
  case Connection
  with assms show ?thesis
    by (auto simp: connection_def store_ok_def split: if_splits)
next
  case (Join_drawing d uname)
  with assms show ?thesis
    by (auto split: if_splits dest: join_drawing_store_ok)
next
  case (Draw_stroke d stroke now)
  with assms show ?thesis
    by (cases "rooms_get (rooms st) d")
      (auto simp: draw_stroke_def Let_def split: if_splits
        dest: store_ok_Own intro!: store_ok_update)
next
  case (Cursor_move d x y)
  with assms show ?thesis
    by (cases "rooms_get (rooms st) d")
      (auto simp: cursor_move_def split: if_splits option.splits)
next
  case (Undo_stroke d)
  with assms show ?thesis
    by (cases "rooms_get (rooms st) d")
      (auto simp: undo_stroke_def Let_def split: if_splits
        dest: store_ok_Own intro!: store_ok_update)
next
  case (Clear_canvas d)
  with assms show ?thesis
    by (cases "rooms_get (rooms st) d")
      (auto simp: clear_canvas_def Let_def split: if_splits
        dest: store_ok_Own intro!: store_ok_update)
next
  case Disconnect
  with assms show ?thesis
    by (auto split: if_splits dest: disconnect_store_ok)
qed


lemma sockets_ok_delete: "sockets_ok st \<Longrightarrow> sockets_ok (st\<lparr>sockets := AList.delete sid (sockets st)\<rparr>)"
  by (simp add: sockets_ok_def list_all_delete)

lemma log_event_sockets:
  "draw_stroke sid d stroke now st = Inr (st', out) \<Longrightarrow> sockets st' = sockets st"
  "undo_stroke sid d st = Inr (st', out) \<Longrightarrow> sockets st' = sockets st"
  "clear_canvas sid d st = Inr (st', out) \<Longrightarrow> sockets st' = sockets st"
  "cursor_move sid d x y st = Inr (st', out) \<Longrightarrow> sockets st' = sockets st"
  by (cases "rooms_get (rooms st) d";
      auto simp: draw_stroke_def undo_stroke_def clear_canvas_def cursor_move_def Let_def
        split: if_splits option.splits)+

lemma step_sockets_ok:
  assumes "step st sid ev = Inr (st', out)" and "store_ok st" and "sockets_ok st"
  shows "sockets_ok st'"
proof (cases ev)
  case Connection
  with assms show ?thesis
    by (auto simp: connection_def sockets_ok_def split: if_splits)
next
  case (Join_drawing d uname)
  with assms show ?thesis
    by (auto split: if_splits dest: join_drawing_sockets_ok)
next
  case (Draw_stroke d stroke now)
  with assms show ?thesis
    by (auto simp: sockets_ok_def split: if_splits dest!: log_event_sockets)
next
  case (Cursor_move d x y)
  with assms show ?thesis
    by (auto simp: sockets_ok_def split: if_splits dest!: log_event_sockets)
next
  case (Undo_stroke d)
  with assms show ?thesis
    by (auto simp: sockets_ok_def split: if_splits dest!: log_event_sockets)
next
  case (Clear_canvas d)
  with assms show ?thesis
    by (auto simp: sockets_ok_def split: if_splits dest!: log_event_sockets)
next
  case Disconnect
  with assms show ?thesis
    using sockets_ok_delete [OF assms(3), of sid]
    by (auto simp: sockets_ok_def split: if_splits dest!: disconnect_sockets)
qed

lemma step_server_ok:
  "step st sid ev = Inr (st', out) \<Longrightarrow> server_ok st \<Longrightarrow> server_ok st'"
  unfolding server_ok_def using step_store_ok step_sockets_ok by blast

lemma run_server_ok:
  "run st evs = Inr (st', out) \<Longrightarrow> server_ok st \<Longrightarrow> server_ok st'"
proof (induction evs arbitrary: st out)
  case Nil
  then show ?case by simp
next
  case (Cons e evs)
  obtain sid ev where e: "e = (sid, ev)"
    by (cases e)
  from Cons.prems(1) obtain st1 out1 out2 where
    "step st sid ev = Inr (st1, out1)" "run st1 evs = Inr (st', out2)"
    by (auto simp: e split: sum.splits)
  then show ?case
    using Cons.IH [of st1 out2] Cons.prems(2) step_server_ok by blast
qed

lemma reachable_server_ok: "run initial evs = Inr (st, out) \<Longrightarrow> server_ok st"
  using run_server_ok [of initial evs st out] store_ok_initial by (simp add: server_ok_def)

lemma join_absent:
  assumes "server_ok st" and "rooms_get (rooms st) d = Absent"
  shows "\<exists>st' out u. join_drawing sid d uname st = Inr (st', out)
           \<and> rooms_get (rooms st') d = Own \<lparr>users = [u], strokes = []\<rparr>
           \<and> id_user u = sid \<and> color u = colors ! 0"
proof -
  obtain st1 out1 where lp: "leave_previous sid st = Inr (st1, out1)"
    using leave_previous_returns [of st sid] assms(1) by (auto simp: server_ok_def)
  have "rooms_get (rooms st1) d = Absent"
    using lp assms(2) by (rule leave_previous_stays_absent)
  from join_fresh [OF lp this, of uname] show ?thesis
    by (auto simp: rooms_get_update_same)
qed

lemma join_unchanged_room:
  assumes "server_ok st" and "rooms_get (rooms st) d = Own r"
    and "find (\<lambda>room. room \<noteq> sid) (socket_rooms st sid) \<noteq> Some d
           \<or> sid \<notin> id_user ` set (users r)"
  shows "\<exists>st' out u. join_drawing sid d uname st = Inr (st', out)
           \<and> rooms_get (rooms st') d = Own (r\<lparr>users := users r @ [u]\<rparr>)
           \<and> id_user u = sid \<and> color u = colors ! (length (users r) mod 8)"
proof -
  obtain st1 out1 where lp: "leave_previous sid st = Inr (st1, out1)"
    using leave_previous_returns [of st sid] assms(1) by (auto simp: server_ok_def)
  have "rooms_get (rooms st1) d = Own r"
    using assms(2,3) leave_previous_other [OF lp, of d] leave_previous_stranger [OF lp, of d r]
    by auto
  from join_existing [OF lp this, of uname] show ?thesis
    by (auto simp: rooms_get_update_same)
qed

lemma leave_previous_current:
  "leave_previous sid st =
     (case current_room st sid of
        None \<Rightarrow> Inr (st, [])
      | Some p \<Rightarrow> removeUserFromRoom p sid (socket_leave sid p st))"
  by (simp add: leave_previous_def current_room_def split: option.splits)

lemma join_keeps_room:
  assumes "server_ok st" and "rooms_get (rooms st) d = Own r"
    and "\<not> (current_room st sid = Some d \<and> sid \<in> id_user ` set (users r))"
  shows "\<exists>st' out u. join_drawing sid d uname st = Inr (st', out)
           \<and> rooms_get (rooms st') d = Own (r\<lparr>users := users r @ [u]\<rparr>)
           \<and> id_user u = sid"
proof -
  obtain st1 out1 where lp: "leave_previous sid st = Inr (st1, out1)"
    using leave_previous_returns [of st sid] assms(1) by (auto simp: server_ok_def)
  have "rooms_get (rooms st1) d = Own r"
  proof (cases "sid \<in> id_user ` set (users r)")
    case False
    with lp assms(2) show ?thesis
      by (rule leave_previous_stranger)
  next
    case True
    with assms(3) have other: "current_room st sid \<noteq> Some d"
      by simp
    show ?thesis
    proof (cases "current_room st sid")
      case None
      with lp have "st1 = st"
        by (simp add: leave_previous_current)
      with assms(2) show ?thesis by simp
    next
      case (Some p)
      with other have "d \<noteq> p" by simp
      moreover from lp Some
      have "removeUserFromRoom p sid (socket_leave sid p st) = Inr (st1, out1)"
        by (simp add: leave_previous_current)
      ultimately show ?thesis
        using removeUserFromRoom_other [of p sid "socket_leave sid p st" st1 out1 d] assms(2)
        by (simp add: socket_leave_simps)
    qed
  qed
  from join_existing [OF lp this, of uname] show ?thesis
    by (auto simp: rooms_get_update_same)
qed

text \<open>
  C3 as stated fails in two places. A join first takes the socket out of its current
  room, also when that is the session it joins: socket \<open>A\<close>, one of the two members of
  \<open>d\<close>, joins \<open>d\<close>, and the session has two members afterwards, not three. And the test
  \<^verbatim>\<open>if (!rooms[drawingId])\<close> is passed by a name that \<^verbatim>\<open>rooms\<close> inherits: a join to
  \<open>toString\<close>, which is not in the store, creates nothing and ends in a \<^verbatim>\<open>TypeError\<close>.
\<close>

theorem join_by_member_counterexample:
  "rooms_get (rooms server_ABA) ''d'' = Own room_ABA
   \<and> length (users room_ABA) = 2
   \<and> join_drawing ''A'' ''d'' None server_ABA =
       Inr (server_ABA\<lparr>rooms :=
              [(''d'', room_ABA\<lparr>users := [member ''B'' ''#4ECDC4'', member ''A'' ''#4ECDC4'']\<rparr>)]\<rparr>,
            [Emission (Io_to ''d'') (User_left ''A'' ''UserA'') [''B''],
             Emission (Socket_emit ''A'')
               (Room_state [member ''B'' ''#4ECDC4'', member ''A'' ''#4ECDC4'']
                  (strokes room_ABA))
               [''A''],
             Emission (Socket_to ''A'' ''d'') (User_joined (member ''A'' ''#4ECDC4'')) [''B'']])
   \<and> map_of (rooms server_idle) ''toString'' = None
   \<and> step server_idle ''A'' (Join_drawing ''toString'' None) = Inl TypeError"
proof -
  have "join_drawing ''A'' ''d'' None server_ABA =
       Inr (server_ABA\<lparr>rooms :=
              [(''d'', room_ABA\<lparr>users := [member ''B'' ''#4ECDC4'', member ''A'' ''#4ECDC4'']\<rparr>)]\<rparr>,
            [Emission (Io_to ''d'') (User_left ''A'' ''UserA'') [''B''],
             Emission (Socket_emit ''A'')
               (Room_state [member ''B'' ''#4ECDC4'', member ''A'' ''#4ECDC4'']
                  (strokes room_ABA))
               [''A''],
             Emission (Socket_to ''A'' ''d'') (User_joined (member ''A'' ''#4ECDC4'')) [''B'']])"
    by (simp add: handler_defs server_ABA_def room_ABA_def two_sockets_def member_def
        stroke_by_def)
  moreover have "rooms_get (rooms server_ABA) ''d'' = Own room_ABA"
    "length (users room_ABA) = 2"
    by (simp_all add: server_ABA_def rooms_get_def room_ABA_def)
  moreover have "map_of (rooms server_idle) ''toString'' = None"
    by (simp add: server_idle_def)
  moreover have "step server_idle ''A'' (Join_drawing ''toString'' None) = Inl TypeError"
    by (simp add: handler_defs server_idle_def object_prototype_names_def)
  ultimately show ?thesis
    by (intro conjI)
qed

text \<open>
  C3, amended. In a well-formed state, a join to a session id that is not in the store
  and is not a name that \<^verbatim>\<open>rooms\<close> inherits creates the session with the joiner as its only
  member and an empty log. A join to an existing session, by any connection other than a
  member of that session whose current room it is, appends the joiner to the member
  list, which grows from \<open>N\<close> to \<open>N + 1\<close> entries, and leaves the log as it was.
\<close>

theorem join_creates_or_appends:
  assumes "server_ok st"
  shows "(rooms_get (rooms st) d = Absent \<longrightarrow>
            (\<exists>st' out u. join_drawing sid d uname st = Inr (st', out)
               \<and> rooms_get (rooms st') d = Own \<lparr>users = [u], strokes = []\<rparr>
               \<and> id_user u = sid))
       \<and> (\<forall>r. rooms_get (rooms st) d = Own r
                \<and> \<not> (current_room st sid = Some d \<and> sid \<in> id_user ` set (users r)) \<longrightarrow>
            (\<exists>st' out r' u. join_drawing sid d uname st = Inr (st', out)
               \<and> rooms_get (rooms st') d = Own r'
               \<and> users r' = users r @ [u] \<and> id_user u = sid
               \<and> length (users r') = length (users r) + 1
               \<and> strokes r' = strokes r))"
proof (intro conjI impI allI)
  assume "rooms_get (rooms st) d = Absent"
  from join_absent [OF assms this, of sid uname]
  show "\<exists>st' out u. join_drawing sid d uname st = Inr (st', out)
          \<and> rooms_get (rooms st') d = Own \<lparr>users = [u], strokes = []\<rparr> \<and> id_user u = sid"
    by auto
next
  fix r
  assume "rooms_get (rooms st) d = Own r
            \<and> \<not> (current_room st sid = Some d \<and> sid \<in> id_user ` set (users r))"
  then obtain st' out u where
    "join_drawing sid d uname st = Inr (st', out)"
    "rooms_get (rooms st') d = Own (r\<lparr>users := users r @ [u]\<rparr>)" "id_user u = sid"
    using join_keeps_room [OF assms, of d r sid uname] by auto
  then show "\<exists>st' out r' u. join_drawing sid d uname st = Inr (st', out)
               \<and> rooms_get (rooms st') d = Own r'
               \<and> users r' = users r @ [u] \<and> id_user u = sid
               \<and> length (users r') = length (users r) + 1
               \<and> strokes r' = strokes r"
    by (intro exI [of _ st'] exI [of _ out] exI [of _ "r\<lparr>users := users r @ [u]\<rparr>"]
        exI [of _ u]) simp
qed

theorem join_creates_or_appends_witness:
  "server_ok server_ABC
   \<and> rooms_get (rooms server_ABC) ''e'' = Absent
   \<and> (\<exists>st' out u. join_drawing ''C'' ''e'' None server_ABC = Inr (st', out)
         \<and> rooms_get (rooms st') ''e'' = Own \<lparr>users = [u], strokes = []\<rparr>
         \<and> id_user u = ''C'')
   \<and> rooms_get (rooms server_ABC) ''d'' = Own room_ABA
   \<and> \<not> (current_room server_ABC ''C'' = Some ''d''
          \<and> ''C'' \<in> id_user ` set (users room_ABA))
   \<and> (\<exists>st' out r' u. join_drawing ''C'' ''d'' None server_ABC = Inr (st', out)
         \<and> rooms_get (rooms st') ''d'' = Own r'
         \<and> users r' = [member ''A'' ''#FF6B6B'', member ''B'' ''#4ECDC4'', u]
         \<and> id_user u = ''C''
         \<and> length (users r') = 3
         \<and> strokes r' = [stroke_by ''A'' 1, stroke_by ''B'' 2, stroke_by ''A'' 3])"
proof -
  have ok: "server_ok server_ABC"
    by (simp add: server_ok_def store_ok_def sockets_ok_def server_ABC_def room_ABA_def
        two_sockets_def member_def object_prototype_names_def)
  have absent: "rooms_get (rooms server_ABC) ''e'' = Absent"
    by (simp add: server_ABC_def rooms_get_def object_prototype_names_def)
  have own: "rooms_get (rooms server_ABC) ''d'' = Own room_ABA"
    by (simp add: server_ABC_def rooms_get_def)
  have new: "\<not> (current_room server_ABC ''C'' = Some ''d''
          \<and> ''C'' \<in> id_user ` set (users room_ABA))"
    by (simp add: room_ABA_def member_def)
  have room: "users room_ABA = [member ''A'' ''#FF6B6B'', member ''B'' ''#4ECDC4'']"
    "strokes room_ABA = [stroke_by ''A'' 1, stroke_by ''B'' 2, stroke_by ''A'' 3]"
    by (simp_all add: room_ABA_def)
  have "\<exists>st' out u. join_drawing ''C'' ''e'' None server_ABC = Inr (st', out)
         \<and> rooms_get (rooms st') ''e'' = Own \<lparr>users = [u], strokes = []\<rparr>
         \<and> id_user u = ''C''"
    using join_creates_or_appends
      [OF ok, where d = "''e''" and sid = "''C''" and uname = None] absent
    by simp
  moreover have "\<exists>st' out r' u. join_drawing ''C'' ''d'' None server_ABC = Inr (st', out)
         \<and> rooms_get (rooms st') ''d'' = Own r'
         \<and> users r' = [member ''A'' ''#FF6B6B'', member ''B'' ''#4ECDC4'', u]
         \<and> id_user u = ''C''
         \<and> length (users r') = 3
         \<and> strokes r' = [stroke_by ''A'' 1, stroke_by ''B'' 2, stroke_by ''A'' 3]"
    using join_creates_or_appends
      [OF ok, where d = "''d''" and sid = "''C''" and uname = None] own new
    by (simp add: room numeral_3_eq_3)
  ultimately show ?thesis
    using ok absent own new by (intro conjI)
qed

text \<open>
  C4 as stated fails in two places. When the connection is the only member, the leave
  step of \<^verbatim>\<open>join-drawing\<close> empties the member list, \<^verbatim>\<open>removeUserFromRoom\<close> deletes the room,
  and the join creates it again: socket \<open>A\<close>, alone in \<open>d\<close> with one stroke in the log,
  joins \<open>d\<close>, and the log is empty afterwards. And the leave step takes the socket out of
  its current room only: after \<open>behind_events\<close> socket \<open>A\<close> is the only member of \<open>x\<close>, but
  its first room is the one named by the empty string, which \<^verbatim>\<open>if (previousRoom)\<close> takes
  for no room; \<open>A\<close> joins \<open>x\<close> again and is in its member list twice.
\<close>

theorem rejoin_alone_counterexample:
  "rooms_get (rooms server_solo) ''d'' = Own room_solo
   \<and> strokes room_solo = [stroke_by ''A'' 1]
   \<and> join_drawing ''A'' ''d'' None server_solo =
       Inr (server_solo\<lparr>rooms := [(''d'', room_solo\<lparr>strokes := []\<rparr>)]\<rparr>,
            [Emission (Io_to ''d'') (User_left ''A'' ''UserA'') [],
             Emission (Socket_emit ''A'') (Room_state [member ''A'' ''#FF6B6B''] []) [''A''],
             Emission (Socket_to ''A'' ''d'') (User_joined (member ''A'' ''#FF6B6B'')) []])
   \<and> state_after (run initial behind_events) = Some server_behind
   \<and> rooms_get (rooms server_behind) ''x''
       = Own \<lparr>users = [member ''A'' ''#FF6B6B''], strokes = []\<rparr>
   \<and> step server_behind ''A'' (Join_drawing ''x'' None) =
       Inr (server_behind\<lparr>rooms :=
              [([], \<lparr>users = [member ''A'' ''#FF6B6B''], strokes = []\<rparr>),
               (''x'', \<lparr>users = [member ''A'' ''#FF6B6B'', member ''A'' ''#4ECDC4''],
                         strokes = []\<rparr>)]\<rparr>,
            [Emission (Socket_emit ''A'')
               (Room_state [member ''A'' ''#FF6B6B'', member ''A'' ''#4ECDC4''] []) [''A''],
             Emission (Socket_to ''A'' ''x'') (User_joined (member ''A'' ''#4ECDC4'')) []])"
proof -
  have "rooms_get (rooms server_solo) ''d'' = Own room_solo"
    "strokes room_solo = [stroke_by ''A'' 1]"
    by (simp_all add: server_solo_def rooms_get_def room_solo_def)
  moreover have "join_drawing ''A'' ''d'' None server_solo =
       Inr (server_solo\<lparr>rooms := [(''d'', room_solo\<lparr>strokes := []\<rparr>)]\<rparr>,
            [Emission (Io_to ''d'') (User_left ''A'' ''UserA'') [],
             Emission (Socket_emit ''A'') (Room_state [member ''A'' ''#FF6B6B''] []) [''A''],
             Emission (Socket_to ''A'' ''d'') (User_joined (member ''A'' ''#FF6B6B'')) []])"
    by (simp add: handler_defs server_solo_def room_solo_def member_def stroke_by_def
        object_prototype_names_def)
  moreover have "state_after (run initial behind_events) = Some server_behind"
    by (simp add: state_after_def behind_events_def server_behind_def initial_def member_def
        handler_defs object_prototype_names_def)
  moreover have "rooms_get (rooms server_behind) ''x''
       = Own \<lparr>users = [member ''A'' ''#FF6B6B''], strokes = []\<rparr>"
    by (simp add: server_behind_def rooms_get_def)
  moreover have "step server_behind ''A'' (Join_drawing ''x'' None) =
       Inr (server_behind\<lparr>rooms :=
              [([], \<lparr>users = [member ''A'' ''#FF6B6B''], strokes = []\<rparr>),
               (''x'', \<lparr>users = [member ''A'' ''#FF6B6B'', member ''A'' ''#4ECDC4''],
                         strokes = []\<rparr>)]\<rparr>,
            [Emission (Socket_emit ''A'')
               (Room_state [member ''A'' ''#FF6B6B'', member ''A'' ''#4ECDC4''] []) [''A''],
             Emission (Socket_to ''A'' ''x'') (User_joined (member ''A'' ''#4ECDC4'')) []])"
    by (simp add: handler_defs server_behind_def member_def)
  ultimately show ?thesis
    by (intro conjI)
qed

text \<open>
  C4, amended. In a well-formed state, let a connection be a member of a session that is
  also its current room: the room that \<^verbatim>\<open>join-drawing\<close> makes it leave, which is the first
  room of the socket other than the one of its own id, unless that is the empty string.
  Joining that session again takes the first member entry of the connection out of the
  list and puts a new one at its end, so the member count is as it was. The log is as it
  was when the list had another entry; when the connection's entry was the only one, the
  session is deleted by the leave step and created again, and the log is empty.
\<close>

theorem rejoin_keeps_member_count:
  assumes "server_ok st" and "rooms_get (rooms st) d = Own r"
    and "current_room st sid = Some d"
    and "sid \<in> id_user ` set (users r)"
  shows "\<exists>st' out r' pre x post u.
           join_drawing sid d uname st = Inr (st', out)
           \<and> rooms_get (rooms st') d = Own r'
           \<and> users r = pre @ x # post \<and> id_user x = sid \<and> sid \<notin> id_user ` set pre
           \<and> users r' = pre @ post @ [u] \<and> id_user u = sid
           \<and> length (users r') = length (users r)
           \<and> strokes r' = (if length (users r) = 1 then [] else strokes r)"
proof -
  let ?st0 = "socket_leave sid d st"
  have lp: "leave_previous sid st = removeUserFromRoom d sid ?st0"
    using assms(3) by (simp add: leave_previous_current)
  have own0: "rooms_get (rooms ?st0) d = Own r"
    using assms(2) by (simp add: socket_leave_simps)
  have name: "d \<notin> set object_prototype_names"
    using store_ok_Own [of st d r] assms(1,2) by (simp add: server_ok_def)
  from member_first [OF assms(4)] obtain pre x post where
    split: "users r = pre @ x # post" "id_user x = sid" "sid \<notin> id_user ` set pre"
    by (elim exE conjE)
  let ?left = "if pre @ post = [] then AList.delete d (rooms ?st0)
               else AList.update d (r\<lparr>users := pre @ post\<rparr>) (rooms ?st0)"
  have gone: "leave_previous sid st =
      Inr (?st0\<lparr>rooms := ?left\<rparr>,
           [Emission (Io_to d) (User_left sid (username x)) (in_room ?st0 d)])"
    unfolding lp using own0 split by (rule removeUserFromRoom_first)
  show ?thesis
  proof (cases "pre @ post = []")
    case True
    then have one: "length (users r) = 1" and nil: "pre = []" "post = []"
      by (simp_all add: split(1))
    have "rooms_get (rooms (?st0\<lparr>rooms := ?left\<rparr>)) d = Absent"
      using True name by (simp add: rooms_get_delete_same)
    from join_fresh [OF gone this, of uname] obtain out u where
      joined: "join_drawing sid d uname st =
         Inr ((socket_join sid d (?st0\<lparr>rooms := ?left\<rparr>))
                \<lparr>rooms := AList.update d \<lparr>users = [u], strokes = []\<rparr>
                            (rooms (?st0\<lparr>rooms := ?left\<rparr>))\<rparr>, out)"
      and u: "id_user u = sid"
      by (elim exE conjE)
    let ?st' = "(socket_join sid d (?st0\<lparr>rooms := ?left\<rparr>))
                  \<lparr>rooms := AList.update d \<lparr>users = [u], strokes = []\<rparr>
                              (rooms (?st0\<lparr>rooms := ?left\<rparr>))\<rparr>"
    show ?thesis
      using joined u split one nil
      by (intro exI [of _ ?st'] exI [of _ out], intro exI [of _ "\<lparr>users = [u], strokes = []\<rparr>"],
          intro exI [of _ pre], intro exI [of _ x], intro exI [of _ post], intro exI [of _ u])
        (simp add: rooms_get_update_same)
  next
    case False
    then have more: "length (users r) \<noteq> 1"
      by (auto simp: split(1))
    have "rooms_get (rooms (?st0\<lparr>rooms := ?left\<rparr>)) d = Own (r\<lparr>users := pre @ post\<rparr>)"
      using False by (auto simp: rooms_get_update_same)
    from join_existing [OF gone this, of uname] obtain out u where
      joined: "join_drawing sid d uname st =
         Inr ((socket_join sid d (?st0\<lparr>rooms := ?left\<rparr>))
                \<lparr>rooms := AList.update d
                            ((r\<lparr>users := pre @ post\<rparr>)
                               \<lparr>users := users (r\<lparr>users := pre @ post\<rparr>) @ [u]\<rparr>)
                            (rooms (?st0\<lparr>rooms := ?left\<rparr>))\<rparr>, out)"
      and u: "id_user u = sid"
      by (elim exE conjE)
    let ?st' = "(socket_join sid d (?st0\<lparr>rooms := ?left\<rparr>))
                  \<lparr>rooms := AList.update d
                              ((r\<lparr>users := pre @ post\<rparr>)
                                 \<lparr>users := users (r\<lparr>users := pre @ post\<rparr>) @ [u]\<rparr>)
                              (rooms (?st0\<lparr>rooms := ?left\<rparr>))\<rparr>"
    show ?thesis
      using joined u split more
      by (intro exI [of _ ?st'] exI [of _ out], intro exI [of _ "r\<lparr>users := pre @ post @ [u]\<rparr>"],
          intro exI [of _ pre], intro exI [of _ x], intro exI [of _ post], intro exI [of _ u])
        (auto simp: rooms_get_update_same)
  qed
qed

theorem rejoin_keeps_member_count_witness:
  "server_ok server_ABA
   \<and> rooms_get (rooms server_ABA) ''d'' = Own room_ABA
   \<and> current_room server_ABA ''A'' = Some ''d''
   \<and> ''A'' \<in> id_user ` set (users room_ABA)
   \<and> (\<exists>st' out r' pre x post u.
         join_drawing ''A'' ''d'' None server_ABA = Inr (st', out)
         \<and> rooms_get (rooms st') ''d'' = Own r'
         \<and> users room_ABA = pre @ x # post \<and> id_user x = ''A''
         \<and> ''A'' \<notin> id_user ` set pre
         \<and> users r' = pre @ post @ [u] \<and> id_user u = ''A''
         \<and> length (users r') = 2
         \<and> strokes r' = [stroke_by ''A'' 1, stroke_by ''B'' 2, stroke_by ''A'' 3])
   \<and> server_ok server_solo
   \<and> rooms_get (rooms server_solo) ''d'' = Own room_solo
   \<and> current_room server_solo ''A'' = Some ''d''
   \<and> ''A'' \<in> id_user ` set (users room_solo)
   \<and> (\<exists>st' out r' pre x post u.
         join_drawing ''A'' ''d'' None server_solo = Inr (st', out)
         \<and> rooms_get (rooms st') ''d'' = Own r'
         \<and> users room_solo = pre @ x # post \<and> id_user x = ''A''
         \<and> ''A'' \<notin> id_user ` set pre
         \<and> users r' = pre @ post @ [u] \<and> id_user u = ''A''
         \<and> length (users r') = 1
         \<and> strokes r' = [])"
proof -
  have ok: "server_ok server_ABA" "server_ok server_solo"
    by (simp_all add: server_ok_def store_ok_def sockets_ok_def server_ABA_def room_ABA_def
        two_sockets_def server_solo_def room_solo_def member_def object_prototype_names_def)
  have own: "rooms_get (rooms server_ABA) ''d'' = Own room_ABA"
    "rooms_get (rooms server_solo) ''d'' = Own room_solo"
    by (simp_all add: server_ABA_def server_solo_def rooms_get_def)
  have cur: "current_room server_ABA ''A'' = Some ''d''"
    "current_room server_solo ''A'' = Some ''d''"
    by (simp_all add: current_room_def server_ABA_def server_solo_def socket_rooms_def
        two_sockets_def)
  have mem: "''A'' \<in> id_user ` set (users room_ABA)" "''A'' \<in> id_user ` set (users room_solo)"
    by (simp_all add: room_ABA_def room_solo_def member_def)
  have len: "length (users room_ABA) = 2" "length (users room_solo) = 1"
    "strokes room_ABA = [stroke_by ''A'' 1, stroke_by ''B'' 2, stroke_by ''A'' 3]"
    by (simp_all add: room_ABA_def room_solo_def)
  have "\<exists>st' out r' pre x post u.
         join_drawing ''A'' ''d'' None server_ABA = Inr (st', out)
         \<and> rooms_get (rooms st') ''d'' = Own r'
         \<and> users room_ABA = pre @ x # post \<and> id_user x = ''A''
         \<and> ''A'' \<notin> id_user ` set pre
         \<and> users r' = pre @ post @ [u] \<and> id_user u = ''A''
         \<and> length (users r') = 2
         \<and> strokes r' = [stroke_by ''A'' 1, stroke_by ''B'' 2, stroke_by ''A'' 3]"
    using rejoin_keeps_member_count [OF ok(1) own(1) cur(1) mem(1), where uname = None]
    by (simp add: len)
  moreover have "\<exists>st' out r' pre x post u.
         join_drawing ''A'' ''d'' None server_solo = Inr (st', out)
         \<and> rooms_get (rooms st') ''d'' = Own r'
         \<and> users room_solo = pre @ x # post \<and> id_user x = ''A''
         \<and> ''A'' \<notin> id_user ` set pre
         \<and> users r' = pre @ post @ [u] \<and> id_user u = ''A''
         \<and> length (users r') = 1
         \<and> strokes r' = []"
    using rejoin_keeps_member_count [OF ok(2) own(2) cur(2) mem(2), where uname = None]
    by (simp add: len)
  ultimately show ?thesis
    using ok own cur mem by (intro conjI)
qed

subsection \<open>Colours\<close>

lemma join_appends:
  assumes ok: "server_ok st" and name: "d \<notin> set object_prototype_names"
    and conn: "sid \<in> set (map fst (sockets st))"
    and new: "sid \<notin> id_user ` set (room_users st d)"
  shows "\<exists>st' out u. step st sid (Join_drawing d uname) = Inr (st', out)
           \<and> room_users st' d = room_users st d @ [u]
           \<and> id_user u = sid
           \<and> color u = colors ! (length (room_users st d) mod 8)
           \<and> server_ok st'
           \<and> map fst (sockets st') = map fst (sockets st)"
proof -
  have "\<exists>st' out u. join_drawing sid d uname st = Inr (st', out)
           \<and> room_users st' d = room_users st d @ [u]
           \<and> id_user u = sid
           \<and> color u = colors ! (length (room_users st d) mod 8)"
  proof (cases "rooms_get (rooms st) d")
    case Absent
    from join_absent [OF ok Absent, of sid uname] Absent show ?thesis
      by (auto simp: room_users_def)
  next
    case Inherited
    with name show ?thesis
      by (auto dest: rooms_get_Inherited_name)
  next
    case (Own r)
    with new have "sid \<notin> id_user ` set (users r)"
      by (simp add: room_users_def)
    from join_unchanged_room [OF ok Own, of sid uname] this Own show ?thesis
      by (auto simp: room_users_def)
  qed
  then obtain st' out u where
    j: "join_drawing sid d uname st = Inr (st', out)"
    and rest: "room_users st' d = room_users st d @ [u]" "id_user u = sid"
      "color u = colors ! (length (room_users st d) mod 8)"
    by (elim exE conjE)
  have s: "step st sid (Join_drawing d uname) = Inr (st', out)"
    using conn j by simp
  have "server_ok st'"
    using s ok by (rule step_server_ok)
  moreover have "map fst (sockets st') = map fst (sockets st)"
    using j by (rule join_drawing_connected)
  ultimately show ?thesis
    using s rest by (intro exI conjI)
qed

lemma join_sequence:
  assumes "server_ok st" and "d \<notin> set object_prototype_names"
    and "distinct sids" and "set sids \<subseteq> set (map fst (sockets st))"
    and "set sids \<inter> id_user ` set (room_users st d) = {}"
  shows "\<exists>st' out new.
           run st (map (\<lambda>s. (s, Join_drawing d (unames s))) sids) = Inr (st', out)
           \<and> room_users st' d = room_users st d @ new
           \<and> map id_user new = sids
           \<and> map color new =
               map (\<lambda>n. colors ! (n mod 8))
                 [length (room_users st d) ..< length (room_users st d) + length sids]"
  using assms(1,3,4,5)
proof (induction sids arbitrary: st)
  case Nil
  then show ?case by simp
next
  case (Cons s rest)
  let ?k = "length (room_users st d)"
  from Cons.prems have "s \<in> set (map fst (sockets st))"
    and "s \<notin> id_user ` set (room_users st d)"
    by auto
  from join_appends [OF Cons.prems(1) assms(2) this, of "unames s"]
  obtain st1 out1 u where
    s1: "step st s (Join_drawing d (unames s)) = Inr (st1, out1)"
    and us1: "room_users st1 d = room_users st d @ [u]"
    and u: "id_user u = s" "color u = colors ! (?k mod 8)"
    and ok1: "server_ok st1"
    and conn1: "map fst (sockets st1) = map fst (sockets st)"
    by (elim exE conjE)
  have "distinct rest" "set rest \<subseteq> set (map fst (sockets st1))"
    "set rest \<inter> id_user ` set (room_users st1 d) = {}"
    using Cons.prems us1 u(1) conn1 by auto
  from Cons.IH [OF ok1 this]
  obtain st' out2 new where
    r: "run st1 (map (\<lambda>s. (s, Join_drawing d (unames s))) rest) = Inr (st', out2)"
    and us: "room_users st' d = room_users st1 d @ new"
    and ids: "map id_user new = rest"
    and cols: "map color new =
        map (\<lambda>n. colors ! (n mod 8))
          [length (room_users st1 d) ..< length (room_users st1 d) + length rest]"
    by (elim exE conjE)
  have upt: "[?k ..< ?k + length (s # rest)] = ?k # [Suc ?k ..< Suc ?k + length rest]"
    by (subst upt_conv_Cons) simp_all
  have "run st (map (\<lambda>s. (s, Join_drawing d (unames s))) (s # rest)) = Inr (st', out1 @ out2)"
    using s1 r by simp
  moreover have "room_users st' d = room_users st d @ (u # new)"
    using us us1 by simp
  moreover have "map id_user (u # new) = s # rest"
    using ids u(1) by simp
  moreover have "map color (u # new) =
      map (\<lambda>n. colors ! (n mod 8)) [?k ..< ?k + length (s # rest)]"
    unfolding upt using cols u(2) by (simp add: us1)
  ultimately show ?case
    by (intro exI conjI)
qed

text \<open>
  C6. The colour of a new member is a function of the member count alone: whenever a join
  completes, the joiner is the last entry of the member list and its colour is the entry
  of the palette at the number of members before it, modulo 8. The palette has 8 entries.
  So when connected sockets \<open>sids\<close>, all different, join a session that is not in the
  store one after the other, the member list is \<open>sids\<close> in that order and member \<open>n\<close>
  (counted from 0) has the colour at \<open>n mod 8\<close>.
\<close>

theorem colour_is_palette_at_member_count:
  "length colors = 8
   \<and> (\<forall>st' out. join_drawing sid d uname st = Inr (st', out) \<longrightarrow>
         (\<exists>r' before u. rooms_get (rooms st') d = Own r'
            \<and> users r' = before @ [u] \<and> id_user u = sid
            \<and> color u = colors ! (length before mod 8)))
   \<and> (server_ok st \<and> rooms_get (rooms st) d = Absent \<and> distinct sids
        \<and> set sids \<subseteq> set (map fst (sockets st)) \<longrightarrow>
         (\<exists>st' out.
            run st (map (\<lambda>s. (s, Join_drawing d (unames s))) sids) = Inr (st', out)
            \<and> map id_user (room_users st' d) = sids
            \<and> map color (room_users st' d) =
                map (\<lambda>n. colors ! (n mod 8)) [0 ..< length sids]))"
proof (intro conjI impI allI)
  show "length colors = 8" by (rule length_colors)
next
  fix st' out
  assume "join_drawing sid d uname st = Inr (st', out)"
  then obtain st1 out1 base u where
    st': "st' = (socket_join sid d st1)
             \<lparr>rooms := AList.update d (base\<lparr>users := users base @ [u]\<rparr>) (rooms st1)\<rparr>"
    and u: "id_user u = sid" "color u = colors ! (length (users base) mod 8)"
    by (rule join_drawing_cases)
  have "rooms_get (rooms st') d = Own (base\<lparr>users := users base @ [u]\<rparr>)"
    by (simp add: st' rooms_get_update_same)
  with u show "\<exists>r' before u. rooms_get (rooms st') d = Own r'
            \<and> users r' = before @ [u] \<and> id_user u = sid
            \<and> color u = colors ! (length before mod 8)"
    by (intro exI [of _ "base\<lparr>users := users base @ [u]\<rparr>"] exI [of _ "users base"]
        exI [of _ u]) simp
next
  assume a: "server_ok st \<and> rooms_get (rooms st) d = Absent \<and> distinct sids
        \<and> set sids \<subseteq> set (map fst (sockets st))"
  then have none: "room_users st d = []" and name: "d \<notin> set object_prototype_names"
    by (auto simp: room_users_def dest: rooms_get_Absent_name)
  from join_sequence [of st d sids unames] a none name
  show "\<exists>st' out.
            run st (map (\<lambda>s. (s, Join_drawing d (unames s))) sids) = Inr (st', out)
            \<and> map id_user (room_users st' d) = sids
            \<and> map color (room_users st' d) =
                map (\<lambda>n. colors ! (n mod 8)) [0 ..< length sids]"
    by auto
qed

theorem colour_is_palette_at_member_count_witness:
  "server_ok server_nine \<and> rooms_get (rooms server_nine) ''d'' = Absent
   \<and> distinct nine_sockets \<and> set nine_sockets \<subseteq> set (map fst (sockets server_nine))
   \<and> (\<exists>st' out.
         run server_nine (map (\<lambda>s. (s, Join_drawing ''d'' None)) nine_sockets) = Inr (st', out)
         \<and> map id_user (room_users st' ''d'') = nine_sockets
         \<and> map color (room_users st' ''d'') =
             [''#FF6B6B'', ''#4ECDC4'', ''#45B7D1'', ''#FFA07A'', ''#98D8C8'', ''#F7DC6F'',
              ''#BB8FCE'', ''#85C1E2'', ''#FF6B6B''])"
proof -
  have ok: "server_ok server_nine"
    by (simp add: server_ok_def store_ok_def sockets_ok_def server_nine_def nine_sockets_def)
  have absent: "rooms_get (rooms server_nine) ''d'' = Absent"
    by (simp add: server_nine_def rooms_get_def object_prototype_names_def)
  have dist: "distinct nine_sockets"
    by (simp add: nine_sockets_def)
  have conn: "set nine_sockets \<subseteq> set (map fst (sockets server_nine))"
    by (simp add: server_nine_def comp_def)
  have len: "length nine_sockets = 9"
    by (simp add: nine_sockets_def)
  have palette: "map (\<lambda>n. colors ! (n mod 8)) [0 ..< 9] =
      [''#FF6B6B'', ''#4ECDC4'', ''#45B7D1'', ''#FFA07A'', ''#98D8C8'', ''#F7DC6F'',
       ''#BB8FCE'', ''#85C1E2'', ''#FF6B6B'']"
    by code_simp
  have "\<exists>st' out.
         run server_nine (map (\<lambda>s. (s, Join_drawing ''d'' None)) nine_sockets) = Inr (st', out)
         \<and> map id_user (room_users st' ''d'') = nine_sockets
         \<and> map color (room_users st' ''d'') =
             map (\<lambda>n. colors ! (n mod 8)) [0 ..< 9]"
    using colour_is_palette_at_member_count
      [where st = server_nine and d = "''d''" and sids = nine_sockets and unames = "\<lambda>s. None"]
      ok absent dist conn
    by (simp only: len)
  then show ?thesis
    using ok absent dist conn unfolding palette by (intro conjI)
qed

subsection \<open>Rooms and member lists in step\<close>

lemma map_of_map_entry:
  "map_of (map (\<lambda>(k, v). if P k v then (k, f v) else (k, v)) xs) k =
     map_option (\<lambda>v. if P k v then f v else v) (map_of xs k)"
  by (induction xs) auto

lemma connected_iff: "s \<in> connected st \<longleftrightarrow> map_of (sockets st) s \<noteq> None"
  by (simp add: connected_def map_of_eq_None_iff)

lemma socket_rooms_leave:
  "socket_rooms (socket_leave sid p st) s =
     (if s = sid then removeAll p (socket_rooms st s) else socket_rooms st s)"
proof -
  have "map_of (sockets (socket_leave sid p st)) s =
      map_option (\<lambda>v. if s = sid then removeAll p v else v) (map_of (sockets st) s)"
    unfolding socket_leave_def
    using map_of_map_entry [of "\<lambda>k v. k = sid" "removeAll p" "sockets st" s] by simp
  then show ?thesis
    by (cases "map_of (sockets st) s") (auto simp: socket_rooms_def)
qed

lemma socket_rooms_join:
  "socket_rooms (socket_join sid d st) s =
     (if s = sid \<and> s \<in> connected st \<and> d \<notin> set (socket_rooms st s)
      then socket_rooms st s @ [d] else socket_rooms st s)"
proof -
  have "map_of (sockets (socket_join sid d st)) s =
      map_option (\<lambda>v. if s = sid \<and> d \<notin> set v then v @ [d] else v) (map_of (sockets st) s)"
    unfolding socket_join_def
    using map_of_map_entry [of "\<lambda>k v. k = sid \<and> d \<notin> set v" "\<lambda>v. v @ [d]" "sockets st" s]
    by simp
  then show ?thesis
    by (cases "map_of (sockets st) s") (auto simp: socket_rooms_def connected_iff)
qed

lemma socket_rooms_rooms_update: "socket_rooms (st\<lparr>rooms := rs\<rparr>) s = socket_rooms st s"
  by (simp add: socket_rooms_def)

lemma connected_simps:
  "connected (st\<lparr>rooms := rs\<rparr>) = connected st"
  "connected (socket_leave sid p st) = connected st"
  "connected (socket_join sid d st) = connected st"
  by (simp_all add: connected_def socket_leave_simps socket_join_simps)

lemma rooms_get_Own_iff: "rooms_get rs d = Own r \<longleftrightarrow> map_of rs d = Some r"
  by (simp add: rooms_get_def split: option.splits)

lemma set_in_room: "set (in_room st d) = {s \<in> connected st. d \<in> set (socket_rooms st s)}"
  by (simp add: in_room_def connected_def)

lemma in_step_socket [consumes 2, case_names alone inside]:
  assumes "in_step st" and "s \<in> connected st"
  obtains (alone) "socket_rooms st s = [s]"
  | (inside) d r where "socket_rooms st s = [s, d]" "d \<noteq> s" "d \<noteq> []"
      "map_of (rooms st) d = Some r" "s \<in> id_user ` set (users r)"
  using assms unfolding in_step_def by blast

lemma in_step_room:
  assumes "in_step st" and "map_of (rooms st) d = Some r"
  shows "distinct (map id_user (users r))" and "d \<notin> connected st"
    and "u \<in> set (users r) \<Longrightarrow> id_user u \<in> connected st"
    and "u \<in> set (users r) \<Longrightarrow> socket_rooms st (id_user u) = [id_user u, d]"
  using assms unfolding in_step_def by blast+

lemma in_step_mirrored:
  assumes "in_step st" and "rooms_get (rooms st) d = Own r"
  shows "mirrored st d r"
proof -
  have own: "map_of (rooms st) d = Some r"
    using assms(2) by (simp add: rooms_get_Own_iff)
  have "s \<in> id_user ` set (users r)" if s: "s \<in> connected st" "d \<in> set (socket_rooms st s)" for s
    using assms(1) s(1)
  proof (cases rule: in_step_socket)
    case alone
    with s(2) have "d = s" by simp
    with in_step_room(2) [OF assms(1) own] s(1) show ?thesis by simp
  next
    case (inside d' r')
    with s(2) have "d = s \<or> d = d'" by simp
    with in_step_room(2) [OF assms(1) own] s(1) inside(4,5) own show ?thesis by auto
  qed
  moreover have "s \<in> connected st \<and> d \<in> set (socket_rooms st s)"
    if "s \<in> id_user ` set (users r)" for s
    using in_step_room(3,4) [OF assms(1) own] that by auto
  ultimately show ?thesis
    unfolding mirrored_def set_in_room by blast
qed

lemma in_step_initial: "in_step initial"
  by (simp add: in_step_def initial_def connected_def)


lemma in_stepI:
  assumes "\<And>s. s \<in> connected st \<Longrightarrow>
             socket_rooms st s = [s]
             \<or> (\<exists>d r. socket_rooms st s = [s, d] \<and> d \<noteq> s \<and> d \<noteq> []
                   \<and> map_of (rooms st) d = Some r \<and> s \<in> id_user ` set (users r))"
    and "\<And>d r. map_of (rooms st) d = Some r \<Longrightarrow> distinct (map id_user (users r))"
    and "\<And>d r. map_of (rooms st) d = Some r \<Longrightarrow> d \<notin> connected st"
    and "\<And>d r u. map_of (rooms st) d = Some r \<Longrightarrow> u \<in> set (users r) \<Longrightarrow>
            id_user u \<in> connected st \<and> socket_rooms st (id_user u) = [id_user u, d]"
  shows "in_step st"
  unfolding in_step_def using assms by blast

lemma map_splice1: "map f (splice1 i xs) = splice1 i (map f xs)"
  by (simp add: splice1_def take_map drop_map)

lemma set_splice1_subset: "set (splice1 i xs) \<subseteq> set xs"
  unfolding splice1_def using set_take_subset [of i xs] set_drop_subset [of "Suc i" xs]
  by auto

lemma distinct_splice1: "distinct xs \<Longrightarrow> distinct (splice1 i xs)"
  unfolding splice1_def
  using set_take_disj_set_drop_if_distinct [of xs i "Suc i"] by simp

lemma splice1_drops:
  assumes "distinct xs" and "i < length xs"
  shows "xs ! i \<notin> set (splice1 i xs)"
proof -
  have "distinct (take i xs @ xs ! i # drop (Suc i) xs)"
    unfolding id_take_nth_drop [OF assms(2), symmetric] by (rule assms(1))
  then show ?thesis
    by (simp add: splice1_def)
qed

lemma splice1_keeps:
  assumes "x \<in> set xs" and "x \<noteq> xs ! i" and "i < length xs"
  shows "x \<in> set (splice1 i xs)"
proof -
  have "x \<in> set (take i xs @ xs ! i # drop (Suc i) xs)"
    unfolding id_take_nth_drop [OF assms(3), symmetric] by (rule assms(1))
  with assms(2) show ?thesis
    by (simp add: splice1_def)
qed

lemma set_splice1:
  assumes "distinct xs" and "i < length xs"
  shows "set (splice1 i xs) = set xs - {xs ! i}"
proof (intro set_eqI iffI)
  fix x assume x: "x \<in> set (splice1 i xs)"
  then have "x \<in> set xs"
    using set_splice1_subset [of i xs] by (rule subsetD [rotated])
  moreover have "x \<noteq> xs ! i"
    using x splice1_drops [OF assms] by auto
  ultimately show "x \<in> set xs - {xs ! i}" by simp
next
  fix x assume "x \<in> set xs - {xs ! i}"
  then show "x \<in> set (splice1 i xs)"
    using splice1_keeps [of x xs i] assms(2) by simp
qed

lemma without_cases [consumes 1, case_names stranger member]:
  assumes "without sid r = Some r'"
  obtains "sid \<notin> id_user ` set (users r)" "r' = r"
  | i where "i < length (users r)" "id_user (users r ! i) = sid"
      "r' = r\<lparr>users := splice1 i (users r)\<rparr>"
proof (cases "findIndex (\<lambda>u. id_user u = sid) (users r)")
  case None
  then have "sid \<notin> id_user ` set (users r)"
    by (auto simp: findIndex_None)
  moreover have "r' = r"
    using assms None by (simp add: without_def)
  ultimately show ?thesis
    by (rule that(1))
next
  case (Some i)
  from findIndex_Some [OF Some] have "i < length (users r)" "id_user (users r ! i) = sid"
    by simp_all
  moreover have "r' = r\<lparr>users := splice1 i (users r)\<rparr>"
    using assms Some by (auto simp: without_def split: if_splits)
  ultimately show ?thesis
    by (rule that(2))
qed

lemma without_members:
  assumes "distinct (map id_user (users r))" and "without sid r = Some r'"
  shows "id_user ` set (users r') = id_user ` set (users r) - {sid}"
    and "set (users r') \<subseteq> set (users r)"
    and "distinct (map id_user (users r'))"
proof -
  let ?ids = "map id_user (users r)"
  from assms(2) show "id_user ` set (users r') = id_user ` set (users r) - {sid}"
  proof (cases rule: without_cases)
    case stranger
    then show ?thesis by simp
  next
    case (member i)
    have "set (map id_user (users r')) = set (splice1 i ?ids)"
      by (simp add: member(3) map_splice1)
    also have "\<dots> = set ?ids - {?ids ! i}"
      using assms(1) member(1) by (intro set_splice1) simp_all
    finally show ?thesis
      using member(1,2) by simp
  qed
  from assms(2) show "set (users r') \<subseteq> set (users r)"
    by (cases rule: without_cases) (simp_all add: set_splice1_subset)
  from assms(2) show "distinct (map id_user (users r'))"
    using assms(1) distinct_splice1 [of ?ids]
    by (cases rule: without_cases) (simp_all add: map_splice1)
qed

lemma without_keeps:
  assumes "distinct (map id_user (users r))" and "s \<in> id_user ` set (users r)" and "s \<noteq> sid"
  shows "\<exists>r'. without sid r = Some r' \<and> s \<in> id_user ` set (users r')"
proof (cases "without sid r")
  case None
  then obtain i where i: "findIndex (\<lambda>u. id_user u = sid) (users r) = Some i"
    "splice1 i (users r) = []"
    by (auto simp: without_def split: option.splits if_splits)
  then have "i < length (users r)" "id_user (users r ! i) = sid"
    using findIndex_Some [of "\<lambda>u. id_user u = sid" "users r" i] by auto
  moreover obtain u where "u \<in> set (users r)" "id_user u = s"
    using assms(2) by auto
  ultimately have "u \<in> set (splice1 i (users r))"
    using assms(3) by (intro splice1_keeps) auto
  with i(2) show ?thesis by simp
next
  case (Some r')
  with without_members(1) [OF assms(1) Some] assms(2,3) show ?thesis by simp
qed

lemma without_stranger: "sid \<notin> id_user ` set (users r) \<Longrightarrow> without sid r = Some r"
  using findIndex_None [of "\<lambda>u. id_user u = sid" "users r"]
  by (auto simp: without_def split: option.splits)

lemma removeUserFromRoom_lookup:
  assumes "removeUserFromRoom p sid st = Inr (st', out)"
  shows "map_of (rooms st') d =
           (if d = p then Option.bind (map_of (rooms st) p) (without sid)
            else map_of (rooms st) d)"
proof (cases rule: removeUserFromRoom_cases [of st p sid])
  case absent
  with assms show ?thesis
    by (auto simp: rooms_get_def split: option.splits if_splits)
next
  case inherited
  with assms show ?thesis by simp
next
  case (stranger r)
  with assms show ?thesis
    by (simp add: rooms_get_Own_iff without_stranger)
next
  case (last_member r i)
  with assms show ?thesis
    by (auto simp: rooms_get_Own_iff without_def delete_conv')
next
  case (member r i)
  with assms show ?thesis
    by (auto simp: rooms_get_Own_iff without_def update_conv')
qed


lemma in_step_without:
  assumes inv: "in_step st"
    and conn: "connected st - {sid} \<subseteq> connected st'" "connected st' \<subseteq> connected st"
    and others: "\<And>s. s \<noteq> sid \<Longrightarrow> socket_rooms st' s = socket_rooms st s"
    and self: "sid \<in> connected st' \<Longrightarrow> socket_rooms st' sid = [sid]"
    and lookup: "\<And>d. map_of (rooms st') d = Option.bind (map_of (rooms st) d) (without sid)"
  shows "in_step st'"
proof (rule in_stepI)
  fix s assume s: "s \<in> connected st'"
  show "socket_rooms st' s = [s]
          \<or> (\<exists>d r. socket_rooms st' s = [s, d] \<and> d \<noteq> s \<and> d \<noteq> []
                \<and> map_of (rooms st') d = Some r \<and> s \<in> id_user ` set (users r))"
  proof (cases "s = sid")
    case True
    with s self show ?thesis by simp
  next
    case False
    from s conn(2) have "s \<in> connected st" by auto
    with inv show ?thesis
    proof (cases rule: in_step_socket)
      case alone
      with False others show ?thesis by simp
    next
      case (inside d r)
      from without_keeps [OF in_step_room(1) [OF inv inside(4)] inside(5) False]
      obtain r' where "without sid r = Some r'" "s \<in> id_user ` set (users r')"
        by (elim exE conjE)
      with inside False others [of s] lookup [of d] show ?thesis
        by simp
    qed
  qed
next
  fix d r' assume "map_of (rooms st') d = Some r'"
  then obtain r where r: "map_of (rooms st) d = Some r" "without sid r = Some r'"
    using lookup [of d] by (auto simp: bind_eq_Some_conv)
  note old = in_step_room [OF inv r(1)]
  note mem = without_members [OF old(1) r(2)]
  show "distinct (map id_user (users r'))"
    by (rule mem(3))
  show "d \<notin> connected st'"
    using old(2) conn(2) by auto
  fix u assume u: "u \<in> set (users r')"
  then have u': "u \<in> set (users r)" and ne: "id_user u \<noteq> sid"
    using mem(1,2) by auto
  show "id_user u \<in> connected st' \<and> socket_rooms st' (id_user u) = [id_user u, d]"
    using old(3,4) [OF u'] ne conn(1) others [of "id_user u"] by auto
qed

lemma socket_rooms_cong: "sockets a = sockets b \<Longrightarrow> socket_rooms a s = socket_rooms b s"
  by (simp add: socket_rooms_def)

lemma connected_cong: "sockets a = sockets b \<Longrightarrow> connected a = connected b"
  by (simp add: connected_def)

lemma in_step_no_member:
  assumes "in_step st" and "socket_rooms st sid = [sid]" and "map_of (rooms st) d = Some r"
  shows "sid \<notin> id_user ` set (users r)"
  using in_step_room(4) [OF assms(1,3)] assms(2) by auto

lemma in_step_leave:
  assumes inv: "in_step st" and sid: "sid \<in> connected st"
    and lp: "leave_previous sid st = Inr (st1, out1)"
  shows "in_step st1" and "socket_rooms st1 sid = [sid]" and "connected st1 = connected st"
proof -
  have "in_step st1 \<and> socket_rooms st1 sid = [sid] \<and> connected st1 = connected st"
    using inv sid
  proof (cases rule: in_step_socket)
    case alone
    then have "leave_previous sid st = Inr (st, [])"
      by (simp add: leave_previous_def)
    with lp alone inv show ?thesis by simp
  next
    case (inside p r)
    let ?st0 = "socket_leave sid p st"
    have "leave_previous sid st = removeUserFromRoom p sid ?st0"
      using inside(1,2,3) by (simp add: leave_previous_def)
    with lp have rm: "removeUserFromRoom p sid ?st0 = Inr (st1, out1)"
      by simp
    have socks: "sockets st1 = sockets ?st0"
      using rm by (rule removeUserFromRoom_sockets)
    have rooms1: "socket_rooms st1 s =
        (if s = sid then removeAll p (socket_rooms st s) else socket_rooms st s)" for s
      using socket_rooms_cong [OF socks, of s] by (simp add: socket_rooms_leave)
    have conn1: "connected st1 = connected st"
      using connected_cong [OF socks] by (simp add: connected_simps)
    have self: "socket_rooms st1 sid = [sid]"
      using inside(1,2) by (simp add: rooms1)
    have look: "map_of (rooms st1) d = Option.bind (map_of (rooms st) d) (without sid)" for d
    proof (cases "d = p")
      case True
      then show ?thesis
        using removeUserFromRoom_lookup [OF rm, of d] by (simp add: socket_leave_simps)
    next
      case False
      have same: "map_of (rooms st1) d = map_of (rooms st) d"
        using removeUserFromRoom_lookup [OF rm, of d] False by (simp add: socket_leave_simps)
      show ?thesis
      proof (cases "map_of (rooms st) d")
        case None
        with same show ?thesis by simp
      next
        case (Some r2)
        have "sid \<notin> id_user ` set (users r2)"
          using in_step_room(4) [OF inv Some] inside(1) False by auto
        with same Some show ?thesis
          by (simp add: without_stranger)
      qed
    qed
    have "in_step st1"
      using inv _ _ _ _ look
    proof (rule in_step_without)
      show "connected st - {sid} \<subseteq> connected st1" "connected st1 \<subseteq> connected st"
        by (simp_all add: conn1 Diff_subset)
      show "socket_rooms st1 s = socket_rooms st s" if "s \<noteq> sid" for s
        using that by (simp add: rooms1)
      show "socket_rooms st1 sid = [sid]"
        by (rule self)
    qed
    with self conn1 show ?thesis by simp
  qed
  then show "in_step st1" and "socket_rooms st1 sid = [sid]" and "connected st1 = connected st"
    by simp_all
qed

lemma in_step_enter:
  assumes inv: "in_step st1" and sid: "sid \<in> connected st1"
    and alone: "socket_rooms st1 sid = [sid]"
    and d: "d \<noteq> []" "d \<notin> connected st1" and u: "id_user u = sid"
    and base: "map_of (rooms st1) d = Some base
                 \<or> map_of (rooms st1) d = None \<and> users base = []"
  shows "in_step ((socket_join sid d st1)
            \<lparr>rooms := AList.update d (base\<lparr>users := users base @ [u]\<rparr>) (rooms st1)\<rparr>)"
    (is "in_step ?st'")
proof (rule in_stepI)
  have ne: "d \<noteq> sid"
    using sid d(2) by auto
  have rooms': "socket_rooms ?st' s = (if s = sid then [sid, d] else socket_rooms st1 s)" for s
    using sid alone ne by (simp add: socket_rooms_rooms_update socket_rooms_join)
  have conn': "connected ?st' = connected st1"
    by (simp add: connected_simps)
  have look': "map_of (rooms ?st') k =
      (if k = d then Some (base\<lparr>users := users base @ [u]\<rparr>) else map_of (rooms st1) k)" for k
    by (simp add: update_conv')
  have fresh: "sid \<notin> id_user ` set (users r)" if "map_of (rooms st1) k = Some r" for k r
    using inv alone that by (rule in_step_no_member)
  have old_base: "sid \<notin> id_user ` set (users base)"
      "distinct (map id_user (users base))"
      "\<And>x. x \<in> set (users base) \<Longrightarrow>
          id_user x \<in> connected st1 \<and> socket_rooms st1 (id_user x) = [id_user x, d]"
    using base fresh [of d base] in_step_room(1,3,4) [OF inv, of d base] by auto
  {
    fix s assume s: "s \<in> connected ?st'"
    show "socket_rooms ?st' s = [s]
          \<or> (\<exists>k r. socket_rooms ?st' s = [s, k] \<and> k \<noteq> s \<and> k \<noteq> []
                \<and> map_of (rooms ?st') k = Some r \<and> s \<in> id_user ` set (users r))"
    proof (cases "s = sid")
      case True
      then show ?thesis
        using ne d(1) u by (simp add: rooms' look' update_conv')
    next
      case False
      from s have "s \<in> connected st1" by (simp add: conn')
      with inv show ?thesis
      proof (cases rule: in_step_socket)
        case alone
        with False show ?thesis by (simp add: rooms')
      next
        case (inside k r)
        show ?thesis
        proof (cases "k = d")
          case True
          with inside base have "s \<in> id_user ` set (users base)" by auto
          with inside True False show ?thesis
            by (simp add: rooms' look' update_conv')
        next
          case False
          with inside \<open>s \<noteq> sid\<close> show ?thesis
            by (simp add: rooms' look' update_conv')
        qed
      qed
    qed
  }
  {
    fix k r assume k: "map_of (rooms ?st') k = Some r"
    show "distinct (map id_user (users r))"
    proof (cases "k = d")
      case True
      with k old_base(1,2) u show ?thesis
        by (auto simp: look' update_conv')
    next
      case False
      with k in_step_room(1) [OF inv, of k r] show ?thesis
        by (simp add: look' update_conv')
    qed
    show "k \<notin> connected ?st'"
    proof (cases "k = d")
      case True
      with d(2) show ?thesis by (simp add: conn')
    next
      case False
      with k in_step_room(2) [OF inv, of k r] show ?thesis
        by (simp add: look' conn' update_conv')
    qed
    fix x assume x: "x \<in> set (users r)"
    show "id_user x \<in> connected ?st' \<and> socket_rooms ?st' (id_user x) = [id_user x, k]"
    proof (cases "k = d")
      case True
      with k x have "x \<in> set (users base) \<or> x = u"
        by (auto simp: look' update_conv')
      then show ?thesis
      proof
        assume xb: "x \<in> set (users base)"
        then have "id_user x \<noteq> sid"
          using old_base(1) by auto
        with old_base(3) [OF xb] True show ?thesis
          by (simp add: rooms' conn')
      next
        assume "x = u"
        with u sid True show ?thesis
          by (simp add: rooms' conn')
      qed
    next
      case False
      with k have old: "map_of (rooms st1) k = Some r"
        by (simp add: look' update_conv')
      have "id_user x \<noteq> sid"
        using fresh [OF old] x by auto
      with in_step_room(3,4) [OF inv old x] show ?thesis
        by (simp add: rooms' conn')
    qed
  }
qed


lemma in_step_join:
  assumes inv: "in_step st" and sid: "sid \<in> connected st"
    and d: "d \<noteq> []" "d \<notin> connected st"
    and j: "join_drawing sid d uname st = Inr (st', out)"
  shows "in_step st'"
proof -
  from j obtain st1 out1 base u where
    lp: "leave_previous sid st = Inr (st1, out1)"
    and base: "rooms_get (rooms st1) d = Own base
       \<or> rooms_get (rooms st1) d = Absent \<and> base = \<lparr>users = [], strokes = []\<rparr>"
    and st': "st' = (socket_join sid d st1)
             \<lparr>rooms := AList.update d (base\<lparr>users := users base @ [u]\<rparr>) (rooms st1)\<rparr>"
    and u: "id_user u = sid"
    by (rule join_drawing_cases)
  note left = in_step_leave [OF inv sid lp]
  have "map_of (rooms st1) d = Some base \<or> map_of (rooms st1) d = None \<and> users base = []"
    using base by (auto simp: rooms_get_def split: option.splits if_splits)
  then show ?thesis
    unfolding st' using left d sid u by (intro in_step_enter) simp_all
qed

lemma in_step_same_members:
  assumes inv: "in_step st" and own: "map_of (rooms st) d = Some r" and same: "users r' = users r"
  shows "in_step (st\<lparr>rooms := AList.update d r' (rooms st)\<rparr>)" (is "in_step ?st'")
proof (rule in_stepI)
  have look: "map_of (AList.update d r' (rooms st)) k = Some x \<Longrightarrow>
      \<exists>y. map_of (rooms st) k = Some y \<and> users x = users y" for k x
    using own same by (auto simp: update_conv' split: if_splits)
  fix s assume "s \<in> connected ?st'"
  then have "s \<in> connected st" by (simp add: connected_simps)
  with inv show "socket_rooms ?st' s = [s]
          \<or> (\<exists>k x. socket_rooms ?st' s = [s, k] \<and> k \<noteq> s \<and> k \<noteq> []
                \<and> map_of (rooms ?st') k = Some x \<and> s \<in> id_user ` set (users x))"
  proof (cases rule: in_step_socket)
    case alone
    then show ?thesis by (simp add: socket_rooms_rooms_update)
  next
    case (inside k y)
    with own same show ?thesis
      by (cases "k = d") (auto simp: socket_rooms_rooms_update update_conv')
  qed
next
  fix k x assume "map_of (rooms ?st') k = Some x"
  then obtain y where y: "map_of (rooms st) k = Some y" "users x = users y"
    using own same by (auto simp: update_conv' split: if_splits)
  note old = in_step_room [OF inv y(1)]
  show "distinct (map id_user (users x))"
    using old(1) y(2) by simp
  show "k \<notin> connected ?st'"
    using old(2) by (simp add: connected_simps)
  fix v assume "v \<in> set (users x)"
  then have "v \<in> set (users y)" using y(2) by simp
  from old(3,4) [OF this]
  show "id_user v \<in> connected ?st' \<and> socket_rooms ?st' (id_user v) = [id_user v, k]"
    by (simp add: connected_simps socket_rooms_rooms_update)
qed

lemma log_event_rooms:
  assumes "draw_stroke sid d stroke now st = Inr (st', out)
           \<or> undo_stroke sid d st = Inr (st', out)
           \<or> clear_canvas sid d st = Inr (st', out)
           \<or> cursor_move sid d x y st = Inr (st', out)"
  shows "st' = st
         \<or> (\<exists>r r'. map_of (rooms st) d = Some r \<and> users r' = users r
               \<and> st' = st\<lparr>rooms := AList.update d r' (rooms st)\<rparr>)"
proof (cases "rooms_get (rooms st) d")
  case Absent
  with assms show ?thesis
    by (auto simp: draw_stroke_def undo_stroke_def clear_canvas_def cursor_move_def)
next
  case Inherited
  with assms show ?thesis
    by (auto simp: draw_stroke_def undo_stroke_def clear_canvas_def cursor_move_def)
next
  case (Own r)
  then have own: "map_of (rooms st) d = Some r"
    by (simp add: rooms_get_Own_iff)
  have upd: "\<exists>r0 r'. map_of (rooms st) d = Some r0 \<and> users r' = users r0
      \<and> st\<lparr>rooms := AList.update d (r\<lparr>strokes := l\<rparr>) (rooms st)\<rparr> =
          st\<lparr>rooms := AList.update d r' (rooms st)\<rparr>" for l
    using own by (intro exI [of _ r] exI [of _ "r\<lparr>strokes := l\<rparr>"]) simp
  from assms consider
    "draw_stroke sid d stroke now st = Inr (st', out)"
    | "undo_stroke sid d st = Inr (st', out)"
    | "clear_canvas sid d st = Inr (st', out)"
    | "cursor_move sid d x y st = Inr (st', out)"
    by blast
  then have "st' = st \<or> (\<exists>l. st' = st\<lparr>rooms := AList.update d (r\<lparr>strokes := l\<rparr>) (rooms st)\<rparr>)"
  proof cases
    case 1
    with Own show ?thesis
      by (auto simp: draw_stroke_def Let_def)
  next
    case 2
    with Own show ?thesis
      by (cases "filter (\<lambda>(stroke, index). map_of stroke ''userId'' = Some (JStr sid))
                   (with_index 0 (strokes r)) = []")
        (auto simp: undo_stroke_def Let_def)
  next
    case 3
    with Own show ?thesis
      by (auto simp: clear_canvas_def Let_def)
  next
    case 4
    with Own show ?thesis
      by (auto simp: cursor_move_def split: option.splits)
  qed
  then show ?thesis
  proof
    assume "st' = st"
    then show ?thesis by simp
  next
    assume "\<exists>l. st' = st\<lparr>rooms := AList.update d (r\<lparr>strokes := l\<rparr>) (rooms st)\<rparr>"
    then obtain l where "st' = st\<lparr>rooms := AList.update d (r\<lparr>strokes := l\<rparr>) (rooms st)\<rparr>"
      by (elim exE)
    with upd [of l] show ?thesis
      by simp
  qed
qed

lemma in_step_log_event:
  assumes "in_step st"
    and "draw_stroke sid d stroke now st = Inr (st', out)
           \<or> undo_stroke sid d st = Inr (st', out)
           \<or> clear_canvas sid d st = Inr (st', out)
           \<or> cursor_move sid d x y st = Inr (st', out)"
  shows "in_step st'"
  using log_event_rooms [OF assms(2)] assms(1) in_step_same_members by auto

lemma in_step_connection:
  assumes inv: "in_step st" and new: "map_of (rooms st) sid = None"
    and c: "connection sid st = Inr (st', out)"
  shows "in_step st'"
proof (cases "sid \<in> connected st")
  case True
  with c inv show ?thesis
    by (simp add: connection_def connected_def)
next
  case False
  with c have st': "st' = st\<lparr>sockets := sockets st @ [(sid, [sid])]\<rparr>"
    by (auto simp: connection_def connected_def)
  have none: "map_of (sockets st) sid = None"
    using False by (simp add: connected_iff)
  have rooms': "socket_rooms st' s = (if s = sid then [sid] else socket_rooms st s)" for s
    using none by (simp add: st' socket_rooms_def map_add_def split: option.splits)
  have conn': "connected st' = insert sid (connected st)"
    by (simp add: st' connected_def)
  have look': "rooms st' = rooms st"
    by (simp add: st')
  show ?thesis
  proof (rule in_stepI)
    fix s assume s: "s \<in> connected st'"
    show "socket_rooms st' s = [s]
          \<or> (\<exists>k x. socket_rooms st' s = [s, k] \<and> k \<noteq> s \<and> k \<noteq> []
                \<and> map_of (rooms st') k = Some x \<and> s \<in> id_user ` set (users x))"
    proof (cases "s = sid")
      case True
      then show ?thesis by (simp add: rooms')
    next
      case False
      with s have "s \<in> connected st" by (simp add: conn')
      with inv show ?thesis
        by (cases rule: in_step_socket) (use False in \<open>simp_all add: rooms' look'\<close>)
    qed
  next
    fix k x assume k: "map_of (rooms st') k = Some x"
    then have old: "map_of (rooms st) k = Some x"
      by (simp add: look')
    note facts = in_step_room [OF inv old]
    show "distinct (map id_user (users x))"
      by (rule facts(1))
    show "k \<notin> connected st'"
      using facts(2) old new by (auto simp: conn')
    fix v assume v: "v \<in> set (users x)"
    have "id_user v \<noteq> sid"
      using facts(3) [OF v] False by auto
    with facts(3,4) [OF v]
    show "id_user v \<in> connected st' \<and> socket_rooms st' (id_user v) = [id_user v, k]"
      by (simp add: rooms' conn')
  qed
qed

lemma distinct_object_keys: "distinct (object_keys rs)"
  by (auto simp: object_keys_def Let_def)

lemma remove_from_each_lookup:
  assumes "remove_from_each ks sid st = Inr (st', out)" and "distinct ks"
  shows "map_of (rooms st') d =
           (if d \<in> set ks then Option.bind (map_of (rooms st) d) (without sid)
            else map_of (rooms st) d)"
  using assms
proof (induction ks arbitrary: st out)
  case Nil
  then show ?case by simp
next
  case (Cons k ks)
  from Cons.prems(1) obtain st1 out1 out2 where
    one: "removeUserFromRoom k sid st = Inr (st1, out1)"
    and rest: "remove_from_each ks sid st1 = Inr (st', out2)"
    by (rule remove_from_each_Cons)
  from Cons.prems(2) have k: "k \<notin> set ks" and dist: "distinct ks"
    by simp_all
  show ?case
    using Cons.IH [OF rest dist] removeUserFromRoom_lookup [OF one, of d] k
    by auto
qed

lemma disconnect_lookup:
  assumes "disconnect sid st = Inr (st', out)"
  shows "map_of (rooms st') d = Option.bind (map_of (rooms st) d) (without sid)"
proof -
  have "d \<notin> set (object_keys (rooms st)) \<Longrightarrow> map_of (rooms st) d = None"
    by (simp add: set_object_keys map_of_eq_None_iff)
  then show ?thesis
    using remove_from_each_lookup [OF assms [unfolded disconnect_def] distinct_object_keys, of d]
    by auto
qed

lemma in_step_disconnect:
  assumes inv: "in_step st" and dc: "disconnect sid st = Inr (st', out)"
  shows "in_step st'"
proof -
  have socks: "sockets st' = AList.delete sid (sockets st)"
    using dc by (rule disconnect_sockets)
  have conn': "connected st' = connected st - {sid}"
    by (auto simp: connected_def socks delete_keys)
  have rooms': "socket_rooms st' s = socket_rooms st s" if "s \<noteq> sid" for s
    using that by (simp add: socket_rooms_def socks delete_conv')
  show ?thesis
    using inv _ _ rooms' _ disconnect_lookup [OF dc]
    by (rule in_step_without) (simp_all add: conn')
qed

lemma step_in_step:
  assumes "step st sid ev = Inr (st', out)" and "ordinary st sid ev" and "in_step st"
  shows "in_step st'"
proof (cases "sid \<in> connected st \<or> ev = Connection")
  case False
  with assms show ?thesis
    by (cases ev) (simp_all add: connected_def)
next
  case True
  show ?thesis
  proof (cases ev)
    case Connection
    with assms show ?thesis
      by (auto intro: in_step_connection)
  next
    case (Join_drawing d uname)
    with assms True show ?thesis
      using in_step_join [of st sid d uname st' out] by (simp add: connected_def)
  next
    case (Draw_stroke d stroke now)
    with assms True show ?thesis
      using in_step_log_event [of st sid d stroke now st' out] by (simp add: connected_def)
  next
    case (Cursor_move d x y)
    with assms True show ?thesis
      using in_step_log_event [of st sid d _ _ st' out x y] by (simp add: connected_def)
  next
    case (Undo_stroke d)
    with assms True show ?thesis
      using in_step_log_event [of st sid d _ _ st' out] by (simp add: connected_def)
  next
    case (Clear_canvas d)
    with assms True show ?thesis
      using in_step_log_event [of st sid d _ _ st' out] by (simp add: connected_def)
  next
    case Disconnect
    with assms True show ?thesis
      using in_step_disconnect [of st sid st' out] by (simp add: connected_def)
  qed
qed

lemma run_in_step:
  "run st evs = Inr (st', out) \<Longrightarrow> ordinary_run st evs \<Longrightarrow> in_step st \<Longrightarrow> in_step st'"
proof (induction evs arbitrary: st out)
  case Nil
  then show ?case by simp
next
  case (Cons e evs)
  obtain sid ev where e: "e = (sid, ev)"
    by (cases e)
  from Cons.prems(1) obtain st1 out1 out2 where
    one: "step st sid ev = Inr (st1, out1)" and rest: "run st1 evs = Inr (st', out2)"
    by (auto simp: e split: sum.splits)
  from Cons.prems(2) one have ord: "ordinary st sid ev" "ordinary_run st1 evs"
    by (simp_all add: e)
  from one ord(1) Cons.prems(3) have "in_step st1"
    by (rule step_in_step)
  with rest ord(2) show ?case
    by (rule Cons.IH)
qed

text \<open>
  In every state reached from the empty server by events with ordinary ids (no session
  is named by the empty string or by the id of a socket), each room of the store holds
  exactly the connections of the Socket.IO room of its name.
\<close>

lemma reachable_mirrored:
  assumes "run initial evs = Inr (st, out)" and "ordinary_run initial evs"
    and "rooms_get (rooms st) d = Own r"
  shows "mirrored st d r"
  using run_in_step [OF assms(1,2) in_step_initial] assms(3) by (rule in_step_mirrored)

text \<open>
  In such a state the room named by the id of a connected socket holds that socket alone,
  so that \<^verbatim>\<open>socket.to\<close> reaches exactly the members of the session other than the sender.
\<close>

lemma in_step_own_room:
  assumes "in_step st" and "sid \<in> connected st"
  shows "set (in_room st sid) = {sid}"
proof -
  have "s = sid" if s: "s \<in> connected st" "sid \<in> set (socket_rooms st s)" for s
    using assms(1) s(1)
  proof (cases rule: in_step_socket)
    case alone
    with s(2) show ?thesis by simp
  next
    case (inside d r)
    with s(2) have "sid = s \<or> sid = d" by simp
    moreover have "d \<notin> connected st"
      using in_step_room(2) [OF assms(1) inside(4)] .
    ultimately show ?thesis
      using assms(2) by auto
  qed
  moreover have "sid \<in> set (socket_rooms st sid)"
    using assms by (cases rule: in_step_socket) simp_all
  ultimately show ?thesis
    unfolding set_in_room using assms(2) by blast
qed

lemma reachable_socket_to:
  assumes "run initial evs = Inr (st, out)" and "ordinary_run initial evs"
    and "rooms_get (rooms st) d = Own r" and "sid \<in> connected st"
  shows "set (resolve st (Socket_to sid d)) = id_user ` set (users r) - {sid}"
proof -
  have "in_step st"
    using run_in_step [OF assms(1,2) in_step_initial] .
  from in_step_mirrored [OF this assms(3)] in_step_own_room [OF this assms(4)]
  show ?thesis
    using socket_to_members [of st d r sid] by simp
qed

lemma reachable_stroke_receivers:
  assumes "run initial evs = Inr (st, out)" and "ordinary_run initial evs"
    and "rooms_get (rooms st) d = Own r" and "sid \<in> connected st"
  shows "\<exists>st' payload rcv.
           draw_stroke sid d stroke now st =
             Inr (st', [Emission (Socket_to sid d) (Stroke_drawn payload) rcv])
           \<and> set rcv = id_user ` set (users r) - {sid}"
proof -
  have "set (filter (\<lambda>s. sid \<notin> set (socket_rooms st s)) (in_room st d)) =
      id_user ` set (users r) - {sid}"
    using reachable_socket_to [OF assms] by simp
  with draw_stroke_own [OF assms(3), of sid stroke now] show ?thesis
    by (intro exI conjI)
qed

text \<open>The run of one connection and one join is such a run.\<close>

lemma reachable_mirrored_example:
  "ordinary_run initial [(''A'', Connection), (''A'', Join_drawing ''d'' None)]
   \<and> mirrored server_joined ''d'' \<lparr>users = [member ''A'' ''#FF6B6B''], strokes = []\<rparr>"
proof -
  let ?evs = "[(''A'', Connection), (''A'', Join_drawing ''d'' None)]"
  have reach: "run initial ?evs =
     Inr (server_joined,
          [Emission (Socket_emit ''A'') (Room_state [member ''A'' ''#FF6B6B''] []) [''A''],
           Emission (Socket_to ''A'' ''d'') (User_joined (member ''A'' ''#FF6B6B'')) []])"
    by (simp add: handler_defs server_joined_def member_def initial_def
        object_prototype_names_def)
  have ord: "ordinary_run initial ?evs"
    by (simp add: connection_def initial_def connected_def split: sum.splits)
  have own: "rooms_get (rooms server_joined) ''d''
       = Own \<lparr>users = [member ''A'' ''#FF6B6B''], strokes = []\<rparr>"
    by (simp add: server_joined_def rooms_get_def)
  from reachable_mirrored [OF reach ord own] ord show ?thesis
    by (intro conjI)
qed

subsection \<open>The life of a session\<close>

lemma without_first:
  assumes "users r = pre @ x # post" and "id_user x = sid" and "sid \<notin> id_user ` set pre"
  shows "without sid r = (if pre @ post = [] then None else Some (r\<lparr>users := pre @ post\<rparr>))"
proof -
  have "findIndex (\<lambda>u. id_user u = sid) (users r) = Some (length pre)"
    unfolding assms(1) using assms(2,3) by (intro findIndex_first) (auto simp: image_iff)
  moreover have "splice1 (length pre) (users r) = pre @ post"
    unfolding assms(1) by (rule splice1_middle)
  ultimately show ?thesis
    by (simp add: without_def)
qed

lemma after_leaving_stranger:
  "sid \<notin> id_user ` set (users r) \<Longrightarrow> after_leaving sid (Own r) = Own r"
  by (simp add: without_stranger)

lemma after_leaving_first:
  assumes "users r = pre @ x # post" and "id_user x = sid" and "sid \<notin> id_user ` set pre"
  shows "after_leaving sid (Own r) =
           (if pre @ post = [] then Absent else Own (r\<lparr>users := pre @ post\<rparr>))"
  using without_first [OF assms] by simp

lemma after_leaving_lookup:
  assumes "map_of rs' k = Option.bind (map_of rs k) (without sid)"
    and "\<forall>r. map_of rs k = Some r \<longrightarrow> k \<notin> set object_prototype_names"
  shows "rooms_get rs' k = after_leaving sid (rooms_get rs k)"
  using assms by (auto simp: rooms_get_def split: option.splits)

lemma store_ok_names:
  "store_ok st \<Longrightarrow> \<forall>r. map_of (rooms st) k = Some r \<longrightarrow> k \<notin> set object_prototype_names"
  using store_ok_Own [of st k] by (simp add: rooms_get_Own_iff)

lemma removeUserFromRoom_rooms:
  assumes "removeUserFromRoom d sid st = Inr (st', out)" and "store_ok st"
  shows "rooms_get (rooms st') k =
           (if k = d then after_leaving sid (rooms_get (rooms st) k)
            else rooms_get (rooms st) k)"
proof (cases "k = d")
  case True
  have "map_of (rooms st') k = Option.bind (map_of (rooms st) k) (without sid)"
    using removeUserFromRoom_lookup [OF assms(1), of k] True by simp
  from after_leaving_lookup [OF this store_ok_names [OF assms(2)]] True
  show ?thesis by simp
next
  case False
  with removeUserFromRoom_other [OF assms(1), of k] show ?thesis by simp
qed

lemma leave_previous_rooms:
  assumes "leave_previous sid st = Inr (st', out)" and "store_ok st"
  shows "rooms_get (rooms st') k =
           (if current_room st sid = Some k then after_leaving sid (rooms_get (rooms st) k)
            else rooms_get (rooms st) k)"
proof (cases "current_room st sid")
  case None
  with assms(1) show ?thesis
    by (simp add: leave_previous_current)
next
  case (Some p)
  with assms(1) have "removeUserFromRoom p sid (socket_leave sid p st) = Inr (st', out)"
    by (simp add: leave_previous_current)
  moreover have "store_ok (socket_leave sid p st)"
    using assms(2) by (simp add: store_ok_def socket_leave_simps)
  ultimately show ?thesis
    using removeUserFromRoom_rooms [of p sid "socket_leave sid p st" st' out k] Some
    by (auto simp: socket_leave_simps)
qed

lemma disconnect_rooms:
  assumes "disconnect sid st = Inr (st', out)" and "store_ok st"
  shows "rooms_get (rooms st') k = after_leaving sid (rooms_get (rooms st) k)"
  using disconnect_lookup [OF assms(1), of k] store_ok_names [OF assms(2), of k]
  by (rule after_leaving_lookup)

lemma join_drawing_other_rooms:
  assumes "join_drawing sid d uname st = Inr (st', out)" and "store_ok st" and "k \<noteq> d"
  shows "rooms_get (rooms st') k =
           (if current_room st sid = Some k then after_leaving sid (rooms_get (rooms st) k)
            else rooms_get (rooms st) k)"
proof -
  from assms(1) obtain st1 out1 base u where
    lp: "leave_previous sid st = Inr (st1, out1)"
    and st': "st' = (socket_join sid d st1)
             \<lparr>rooms := AList.update d (base\<lparr>users := users base @ [u]\<rparr>) (rooms st1)\<rparr>"
    by (rule join_drawing_cases)
  have "rooms_get (rooms st') k = rooms_get (rooms st1) k"
    using assms(3) by (simp add: st' rooms_get_update_other)
  with leave_previous_rooms [OF lp assms(2), of k] show ?thesis
    by simp
qed

text \<open>Every other event leaves each session in the store, with the members it has.\<close>

lemma step_keeps_members:
  assumes "step st sid ev = Inr (st', out)" and "ev \<noteq> Disconnect"
    and "\<forall>d uname. ev \<noteq> Join_drawing d uname"
  shows "case rooms_get (rooms st) k of
           Own r \<Rightarrow> \<exists>r'. rooms_get (rooms st') k = Own r' \<and> users r' = users r
         | other \<Rightarrow> rooms_get (rooms st') k = other"
proof -
  have same: ?thesis if "rooms st' = rooms st"
    using that by (cases "rooms_get (rooms st) k") simp_all
  have log: ?thesis
    if "draw_stroke sid d stroke now st = Inr (st', out)
           \<or> undo_stroke sid d st = Inr (st', out)
           \<or> clear_canvas sid d st = Inr (st', out)
           \<or> cursor_move sid d x y st = Inr (st', out)" for d stroke now x y
  proof -
    from log_event_rooms [OF that] consider "st' = st"
      | r r' where "map_of (rooms st) d = Some r" "users r' = users r"
          "st' = st\<lparr>rooms := AList.update d r' (rooms st)\<rparr>"
      by (elim disjE exE conjE)
    then show ?thesis
    proof cases
      case 1
      then have "rooms st' = rooms st" by simp
      then show ?thesis by (rule same)
    next
      case 2
      then show ?thesis
        by (cases "k = d")
          (auto simp: rooms_get_def update_conv' split: option.splits)
    qed
  qed
  show ?thesis
  proof (cases "sid \<in> set (map fst (sockets st))")
    case False
    with assms(1) have "rooms st' = rooms st"
      by (cases ev) (auto simp: connection_def)
    then show ?thesis by (rule same)
  next
    case True
    show ?thesis
    proof (cases ev)
      case Connection
      with assms(1) True have "rooms st' = rooms st"
        by (auto simp: connection_def)
      then show ?thesis by (rule same)
    next
      case (Join_drawing d uname)
      with assms(3) show ?thesis by simp
    next
      case (Draw_stroke d stroke now)
      with assms(1) True show ?thesis
        by (intro log [of d stroke now]) simp
    next
      case (Cursor_move d x y)
      with assms(1) True show ?thesis
        by (intro log [of d _ _ x y]) simp
    next
      case (Undo_stroke d)
      with assms(1) True show ?thesis
        by (intro log [of d]) simp
    next
      case (Clear_canvas d)
      with assms(1) True show ?thesis
        by (intro log [of d]) simp
    next
      case Disconnect
      with assms(2) show ?thesis by simp
    qed
  qed
qed

text \<open>
  C2. Every session in the store has a member: this holds in every state the server
  reaches from the empty one, and every completed event keeps it. A session goes from
  the store only with its last member entry. \<^verbatim>\<open>removeUserFromRoom\<close>, on its own, as the leave
  step of a join (on the current room of the socket) and in \<^verbatim>\<open>disconnect\<close> (on every
  session), takes the first entry of the user out of the member list of the session it
  is called on, deletes that session exactly when no entry is left, and changes no other
  session. A join changes no session but the one joined and the one left, and a join to
  an id that is not in the store creates the session with an empty log and the joiner as
  its only member. Every other event keeps each session in the store, with its members.
\<close>

theorem session_in_store_has_members:
  "(run initial evs = Inr (st, outs) \<longrightarrow> server_ok st)
   \<and> (server_ok st \<longrightarrow>
        (\<forall>k r. rooms_get (rooms st) k = Own r \<longrightarrow> users r \<noteq> [])
      \<and> (\<forall>st' out. step st sid ev = Inr (st', out) \<longrightarrow> server_ok st')
      \<and> (rooms_get (rooms st) d \<noteq> Inherited \<longrightarrow>
           (\<exists>st' out. removeUserFromRoom d sid st = Inr (st', out)
              \<and> (\<forall>k. rooms_get (rooms st') k =
                       (if k = d then after_leaving sid (rooms_get (rooms st) k)
                        else rooms_get (rooms st) k))))
      \<and> (\<exists>st' out. leave_previous sid st = Inr (st', out)
           \<and> (\<forall>k. rooms_get (rooms st') k =
                    (if current_room st sid = Some k
                     then after_leaving sid (rooms_get (rooms st) k)
                     else rooms_get (rooms st) k)))
      \<and> (\<exists>st' out. disconnect sid st = Inr (st', out)
           \<and> sockets st' = AList.delete sid (sockets st)
           \<and> (\<forall>k. rooms_get (rooms st') k = after_leaving sid (rooms_get (rooms st) k)))
      \<and> (\<forall>st' out k. join_drawing sid d uname st = Inr (st', out) \<and> k \<noteq> d \<longrightarrow>
           rooms_get (rooms st') k =
             (if current_room st sid = Some k
              then after_leaving sid (rooms_get (rooms st) k)
              else rooms_get (rooms st) k))
      \<and> (rooms_get (rooms st) d = Absent \<longrightarrow>
           (\<exists>st' out u. join_drawing sid d uname st = Inr (st', out)
              \<and> rooms_get (rooms st') d = Own \<lparr>users = [u], strokes = []\<rparr>
              \<and> id_user u = sid))
      \<and> (\<forall>st' out k. step st sid ev = Inr (st', out) \<and> ev \<noteq> Disconnect
               \<and> (\<forall>d uname. ev \<noteq> Join_drawing d uname) \<longrightarrow>
           (case rooms_get (rooms st) k of
              Own r \<Rightarrow> \<exists>r'. rooms_get (rooms st') k = Own r' \<and> users r' = users r
            | other \<Rightarrow> rooms_get (rooms st') k = other)))
   \<and> after_leaving sid Absent = Absent
   \<and> (\<forall>r. sid \<notin> id_user ` set (users r) \<longrightarrow> after_leaving sid (Own r) = Own r)
   \<and> (\<forall>r pre x post. users r = pre @ x # post \<and> id_user x = sid
          \<and> sid \<notin> id_user ` set pre \<longrightarrow>
        after_leaving sid (Own r) =
          (if pre @ post = [] then Absent else Own (r\<lparr>users := pre @ post\<rparr>)))"
proof -
  have reach: "run initial evs = Inr (st, outs) \<longrightarrow> server_ok st"
    by (intro impI) (rule reachable_server_ok)
  have kept: "server_ok st \<longrightarrow>
        (\<forall>k r. rooms_get (rooms st) k = Own r \<longrightarrow> users r \<noteq> [])
      \<and> (\<forall>st' out. step st sid ev = Inr (st', out) \<longrightarrow> server_ok st')
      \<and> (rooms_get (rooms st) d \<noteq> Inherited \<longrightarrow>
           (\<exists>st' out. removeUserFromRoom d sid st = Inr (st', out)
              \<and> (\<forall>k. rooms_get (rooms st') k =
                       (if k = d then after_leaving sid (rooms_get (rooms st) k)
                        else rooms_get (rooms st) k))))
      \<and> (\<exists>st' out. leave_previous sid st = Inr (st', out)
           \<and> (\<forall>k. rooms_get (rooms st') k =
                    (if current_room st sid = Some k
                     then after_leaving sid (rooms_get (rooms st) k)
                     else rooms_get (rooms st) k)))
      \<and> (\<exists>st' out. disconnect sid st = Inr (st', out)
           \<and> sockets st' = AList.delete sid (sockets st)
           \<and> (\<forall>k. rooms_get (rooms st') k = after_leaving sid (rooms_get (rooms st) k)))
      \<and> (\<forall>st' out k. join_drawing sid d uname st = Inr (st', out) \<and> k \<noteq> d \<longrightarrow>
           rooms_get (rooms st') k =
             (if current_room st sid = Some k
              then after_leaving sid (rooms_get (rooms st) k)
              else rooms_get (rooms st) k))
      \<and> (rooms_get (rooms st) d = Absent \<longrightarrow>
           (\<exists>st' out u. join_drawing sid d uname st = Inr (st', out)
              \<and> rooms_get (rooms st') d = Own \<lparr>users = [u], strokes = []\<rparr>
              \<and> id_user u = sid))
      \<and> (\<forall>st' out k. step st sid ev = Inr (st', out) \<and> ev \<noteq> Disconnect
               \<and> (\<forall>d uname. ev \<noteq> Join_drawing d uname) \<longrightarrow>
           (case rooms_get (rooms st) k of
              Own r \<Rightarrow> \<exists>r'. rooms_get (rooms st') k = Own r' \<and> users r' = users r
            | other \<Rightarrow> rooms_get (rooms st') k = other))"
  proof
    assume ok: "server_ok st"
    then have store: "store_ok st" and socks: "sockets_ok st"
      by (simp_all add: server_ok_def)
    have members: "\<forall>k r. rooms_get (rooms st) k = Own r \<longrightarrow> users r \<noteq> []"
      using store_ok_Own [OF store] by simp
    have step: "\<forall>st' out. step st sid ev = Inr (st', out) \<longrightarrow> server_ok st'"
      using step_server_ok [of st sid ev] ok by simp
    have remove: "rooms_get (rooms st) d \<noteq> Inherited \<longrightarrow>
           (\<exists>st' out. removeUserFromRoom d sid st = Inr (st', out)
              \<and> (\<forall>k. rooms_get (rooms st') k =
                       (if k = d then after_leaving sid (rooms_get (rooms st) k)
                        else rooms_get (rooms st) k)))"
    proof
      assume "rooms_get (rooms st) d \<noteq> Inherited"
      then have "d \<notin> set object_prototype_names"
        using store_ok_Own [OF store, of d] rooms_get_Absent_name [of "rooms st" d]
        by (cases "rooms_get (rooms st) d") simp_all
      from removeUserFromRoom_returns [OF this, of sid st]
      obtain st' out where rm: "removeUserFromRoom d sid st = Inr (st', out)"
        by (elim exE)
      from removeUserFromRoom_rooms [OF rm store]
      have "\<forall>k. rooms_get (rooms st') k =
                       (if k = d then after_leaving sid (rooms_get (rooms st) k)
                        else rooms_get (rooms st) k)"
        by (intro allI)
      with rm show "\<exists>st' out. removeUserFromRoom d sid st = Inr (st', out)
              \<and> (\<forall>k. rooms_get (rooms st') k =
                       (if k = d then after_leaving sid (rooms_get (rooms st) k)
                        else rooms_get (rooms st) k))"
        by (intro exI conjI)
    qed
    have leave: "\<exists>st' out. leave_previous sid st = Inr (st', out)
           \<and> (\<forall>k. rooms_get (rooms st') k =
                    (if current_room st sid = Some k
                     then after_leaving sid (rooms_get (rooms st) k)
                     else rooms_get (rooms st) k))"
    proof -
      from leave_previous_returns [OF socks, of sid]
      obtain st' out where lp: "leave_previous sid st = Inr (st', out)"
        by (elim exE)
      from leave_previous_rooms [OF lp store]
      have "\<forall>k. rooms_get (rooms st') k =
                    (if current_room st sid = Some k
                     then after_leaving sid (rooms_get (rooms st) k)
                     else rooms_get (rooms st) k)"
        by (intro allI)
      with lp show ?thesis
        by (intro exI conjI)
    qed
    have gone: "\<exists>st' out. disconnect sid st = Inr (st', out)
           \<and> sockets st' = AList.delete sid (sockets st)
           \<and> (\<forall>k. rooms_get (rooms st') k = after_leaving sid (rooms_get (rooms st) k))"
    proof -
      from disconnect_returns [OF store, of sid]
      obtain st' out where dc: "disconnect sid st = Inr (st', out)"
        by (elim exE)
      from disconnect_rooms [OF dc store]
      have "\<forall>k. rooms_get (rooms st') k = after_leaving sid (rooms_get (rooms st) k)"
        by (intro allI)
      with dc disconnect_sockets [OF dc] show ?thesis
        by (intro exI conjI)
    qed
    have others: "\<forall>st' out k. join_drawing sid d uname st = Inr (st', out) \<and> k \<noteq> d \<longrightarrow>
           rooms_get (rooms st') k =
             (if current_room st sid = Some k
              then after_leaving sid (rooms_get (rooms st) k)
              else rooms_get (rooms st) k)"
      using join_drawing_other_rooms [OF _ store] by (intro allI impI) (elim conjE)
    have fresh: "rooms_get (rooms st) d = Absent \<longrightarrow>
           (\<exists>st' out u. join_drawing sid d uname st = Inr (st', out)
              \<and> rooms_get (rooms st') d = Own \<lparr>users = [u], strokes = []\<rparr>
              \<and> id_user u = sid)"
    proof
      assume "rooms_get (rooms st) d = Absent"
      from join_absent [OF ok this, of sid uname]
      show "\<exists>st' out u. join_drawing sid d uname st = Inr (st', out)
              \<and> rooms_get (rooms st') d = Own \<lparr>users = [u], strokes = []\<rparr>
              \<and> id_user u = sid"
        by auto
    qed
    have rest: "\<forall>st' out k. step st sid ev = Inr (st', out) \<and> ev \<noteq> Disconnect
               \<and> (\<forall>d uname. ev \<noteq> Join_drawing d uname) \<longrightarrow>
           (case rooms_get (rooms st) k of
              Own r \<Rightarrow> \<exists>r'. rooms_get (rooms st') k = Own r' \<and> users r' = users r
            | other \<Rightarrow> rooms_get (rooms st') k = other)"
    proof (intro allI impI, elim conjE)
      fix st' out k
      assume "step st sid ev = Inr (st', out)" "ev \<noteq> Disconnect"
        "\<forall>d uname. ev \<noteq> Join_drawing d uname"
      then show "case rooms_get (rooms st) k of
              Own r \<Rightarrow> \<exists>r'. rooms_get (rooms st') k = Own r' \<and> users r' = users r
            | other \<Rightarrow> rooms_get (rooms st') k = other"
        by (rule step_keeps_members)
    qed
    from members step remove leave gone others fresh rest
    show "(\<forall>k r. rooms_get (rooms st) k = Own r \<longrightarrow> users r \<noteq> [])
      \<and> (\<forall>st' out. step st sid ev = Inr (st', out) \<longrightarrow> server_ok st')
      \<and> (rooms_get (rooms st) d \<noteq> Inherited \<longrightarrow>
           (\<exists>st' out. removeUserFromRoom d sid st = Inr (st', out)
              \<and> (\<forall>k. rooms_get (rooms st') k =
                       (if k = d then after_leaving sid (rooms_get (rooms st) k)
                        else rooms_get (rooms st) k))))
      \<and> (\<exists>st' out. leave_previous sid st = Inr (st', out)
           \<and> (\<forall>k. rooms_get (rooms st') k =
                    (if current_room st sid = Some k
                     then after_leaving sid (rooms_get (rooms st) k)
                     else rooms_get (rooms st) k)))
      \<and> (\<exists>st' out. disconnect sid st = Inr (st', out)
           \<and> sockets st' = AList.delete sid (sockets st)
           \<and> (\<forall>k. rooms_get (rooms st') k = after_leaving sid (rooms_get (rooms st) k)))
      \<and> (\<forall>st' out k. join_drawing sid d uname st = Inr (st', out) \<and> k \<noteq> d \<longrightarrow>
           rooms_get (rooms st') k =
             (if current_room st sid = Some k
              then after_leaving sid (rooms_get (rooms st) k)
              else rooms_get (rooms st) k))
      \<and> (rooms_get (rooms st) d = Absent \<longrightarrow>
           (\<exists>st' out u. join_drawing sid d uname st = Inr (st', out)
              \<and> rooms_get (rooms st') d = Own \<lparr>users = [u], strokes = []\<rparr>
              \<and> id_user u = sid))
      \<and> (\<forall>st' out k. step st sid ev = Inr (st', out) \<and> ev \<noteq> Disconnect
               \<and> (\<forall>d uname. ev \<noteq> Join_drawing d uname) \<longrightarrow>
           (case rooms_get (rooms st) k of
              Own r \<Rightarrow> \<exists>r'. rooms_get (rooms st') k = Own r' \<and> users r' = users r
            | other \<Rightarrow> rooms_get (rooms st') k = other))"
      by (intro conjI)
  qed
  have absent: "after_leaving sid Absent = Absent"
    by simp
  have stranger: "\<forall>r. sid \<notin> id_user ` set (users r) \<longrightarrow> after_leaving sid (Own r) = Own r"
    by (intro allI impI) (rule after_leaving_stranger)
  have first: "\<forall>r pre x post. users r = pre @ x # post \<and> id_user x = sid
          \<and> sid \<notin> id_user ` set pre \<longrightarrow>
        after_leaving sid (Own r) =
          (if pre @ post = [] then Absent else Own (r\<lparr>users := pre @ post\<rparr>))"
    by (intro allI impI, elim conjE) (rule after_leaving_first)
  from reach kept absent stranger first show ?thesis
    by (intro conjI)
qed

theorem session_in_store_has_members_witness:
  "run initial [(''A'', Connection), (''A'', Join_drawing ''d'' None)] =
     Inr (server_joined,
          [Emission (Socket_emit ''A'') (Room_state [member ''A'' ''#FF6B6B''] []) [''A''],
           Emission (Socket_to ''A'' ''d'') (User_joined (member ''A'' ''#FF6B6B'')) []])
   \<and> server_ok server_joined
   \<and> server_ok server_ABC_e
   \<and> rooms_get (rooms server_ABC_e) ''d'' = Own room_ABA
   \<and> rooms_get (rooms server_ABC_e) ''e'' = Own room_C
   \<and> users room_ABA = [] @ member ''A'' ''#FF6B6B'' # [member ''B'' ''#4ECDC4'']
   \<and> users room_C = [] @ member ''C'' ''#FF6B6B'' # []
   \<and> (\<exists>st' out. disconnect ''A'' server_ABC_e = Inr (st', out)
         \<and> rooms_get (rooms st') ''d'' = Own (room_ABA\<lparr>users := [member ''B'' ''#4ECDC4'']\<rparr>)
         \<and> rooms_get (rooms st') ''e'' = Own room_C)
   \<and> (\<exists>st' out. disconnect ''C'' server_ABC_e = Inr (st', out)
         \<and> rooms_get (rooms st') ''d'' = Own room_ABA
         \<and> rooms_get (rooms st') ''e'' = Absent)
   \<and> current_room server_ABC_e ''C'' = Some ''e''
   \<and> (\<exists>st' out. leave_previous ''C'' server_ABC_e = Inr (st', out)
         \<and> rooms_get (rooms st') ''d'' = Own room_ABA
         \<and> rooms_get (rooms st') ''e'' = Absent)
   \<and> rooms_get (rooms server_ABC_e) ''f'' = Absent
   \<and> (\<exists>st' out u. join_drawing ''C'' ''f'' None server_ABC_e = Inr (st', out)
         \<and> rooms_get (rooms st') ''f'' = Own \<lparr>users = [u], strokes = []\<rparr>
         \<and> id_user u = ''C'')"
proof -
  have reach: "run initial [(''A'', Connection), (''A'', Join_drawing ''d'' None)] =
     Inr (server_joined,
          [Emission (Socket_emit ''A'') (Room_state [member ''A'' ''#FF6B6B''] []) [''A''],
           Emission (Socket_to ''A'' ''d'') (User_joined (member ''A'' ''#FF6B6B'')) []])"
    by (simp add: handler_defs server_joined_def member_def initial_def
        object_prototype_names_def)
  have ok: "server_ok server_ABC_e"
    by (simp add: server_ok_def store_ok_def sockets_ok_def server_ABC_e_def room_ABA_def
        room_C_def two_sockets_def member_def object_prototype_names_def)
  have own: "rooms_get (rooms server_ABC_e) ''d'' = Own room_ABA"
    "rooms_get (rooms server_ABC_e) ''e'' = Own room_C"
    by (simp_all add: server_ABC_e_def rooms_get_def)
  have absent: "rooms_get (rooms server_ABC_e) ''f'' = Absent"
    by (simp add: server_ABC_e_def rooms_get_def object_prototype_names_def)
  have cur: "current_room server_ABC_e ''C'' = Some ''e''"
    by (simp add: current_room_def server_ABC_e_def socket_rooms_def two_sockets_def)
  have lists: "users room_ABA = [] @ member ''A'' ''#FF6B6B'' # [member ''B'' ''#4ECDC4'']"
    "users room_C = [] @ member ''C'' ''#FF6B6B'' # []"
    by (simp_all add: room_ABA_def room_C_def)
  have ids: "id_user (member ''A'' ''#FF6B6B'') = ''A''" "id_user (member ''C'' ''#FF6B6B'') = ''C''"
    "''A'' \<notin> id_user ` set (users room_C)" "''C'' \<notin> id_user ` set (users room_ABA)"
    by (simp_all add: member_def room_ABA_def room_C_def)
  note start = session_in_store_has_members
    [where evs = "[(''A'', Connection), (''A'', Join_drawing ''d'' None)]"
       and st = server_joined and sid = "''A''" and d = "''d''"]
  note by_A = session_in_store_has_members
    [where st = server_ABC_e and sid = "''A''" and d = "''d''" and evs = "[]"
       and outs = "[]" and ev = Disconnect and uname = None]
  note by_C = session_in_store_has_members
    [where st = server_ABC_e and sid = "''C''" and d = "''f''" and evs = "[]"
       and outs = "[]" and ev = Disconnect and uname = None]
  note kept_A = by_A [THEN conjunct2, THEN conjunct1, THEN mp, OF ok]
  note kept_C = by_C [THEN conjunct2, THEN conjunct1, THEN mp, OF ok]
  note tail_A = by_A [THEN conjunct2, THEN conjunct2, THEN conjunct2]
  note tail_C = by_C [THEN conjunct2, THEN conjunct2, THEN conjunct2]
  have ok0: "server_ok server_joined"
    using start [THEN conjunct1] reach by simp
  have left_A: "after_leaving ''A'' (Own room_ABA) = Own (room_ABA\<lparr>users := [member ''B'' ''#4ECDC4'']\<rparr>)"
    using tail_A [THEN conjunct2, rule_format,
        of room_ABA "[]" "member ''A'' ''#FF6B6B''" "[member ''B'' ''#4ECDC4'']"]
      lists(1) ids(1)
    by simp
  have stay_A: "after_leaving ''A'' (Own room_C) = Own room_C"
    using tail_A [THEN conjunct1, rule_format, of room_C] ids(3) by simp
  have left_C: "after_leaving ''C'' (Own room_C) = Absent"
    using tail_C [THEN conjunct2, rule_format,
        of room_C "[]" "member ''C'' ''#FF6B6B''" "[]"]
      lists(2) ids(2)
    by simp
  have stay_C: "after_leaving ''C'' (Own room_ABA) = Own room_ABA"
    using tail_C [THEN conjunct1, rule_format, of room_ABA] ids(4) by simp
  from kept_A [THEN conjunct2, THEN conjunct2, THEN conjunct2, THEN conjunct2, THEN conjunct1]
  obtain st1 out1 where "disconnect ''A'' server_ABC_e = Inr (st1, out1)"
    "\<forall>k. rooms_get (rooms st1) k = after_leaving ''A'' (rooms_get (rooms server_ABC_e) k)"
    by (elim exE conjE)
  then have one: "\<exists>st' out. disconnect ''A'' server_ABC_e = Inr (st', out)
         \<and> rooms_get (rooms st') ''d'' = Own (room_ABA\<lparr>users := [member ''B'' ''#4ECDC4'']\<rparr>)
         \<and> rooms_get (rooms st') ''e'' = Own room_C"
    by (intro exI [of _ st1] exI [of _ out1]) (simp add: own left_A stay_A del: after_leaving.simps)
  from kept_C [THEN conjunct2, THEN conjunct2, THEN conjunct2, THEN conjunct2, THEN conjunct1]
  obtain st2 out2 where "disconnect ''C'' server_ABC_e = Inr (st2, out2)"
    "\<forall>k. rooms_get (rooms st2) k = after_leaving ''C'' (rooms_get (rooms server_ABC_e) k)"
    by (elim exE conjE)
  then have two: "\<exists>st' out. disconnect ''C'' server_ABC_e = Inr (st', out)
         \<and> rooms_get (rooms st') ''d'' = Own room_ABA
         \<and> rooms_get (rooms st') ''e'' = Absent"
    by (intro exI [of _ st2] exI [of _ out2]) (simp add: own left_C stay_C del: after_leaving.simps)
  from kept_C [THEN conjunct2, THEN conjunct2, THEN conjunct2, THEN conjunct1]
  obtain st3 out3 where "leave_previous ''C'' server_ABC_e = Inr (st3, out3)"
    "\<forall>k. rooms_get (rooms st3) k =
                    (if current_room server_ABC_e ''C'' = Some k
                     then after_leaving ''C'' (rooms_get (rooms server_ABC_e) k)
                     else rooms_get (rooms server_ABC_e) k)"
    by (elim exE conjE)
  then have three: "\<exists>st' out. leave_previous ''C'' server_ABC_e = Inr (st', out)
         \<and> rooms_get (rooms st') ''d'' = Own room_ABA
         \<and> rooms_get (rooms st') ''e'' = Absent"
    by (intro exI [of _ st3] exI [of _ out3]) (simp add: own left_C cur del: after_leaving.simps)
  have four: "\<exists>st' out u. join_drawing ''C'' ''f'' None server_ABC_e = Inr (st', out)
         \<and> rooms_get (rooms st') ''f'' = Own \<lparr>users = [u], strokes = []\<rparr>
         \<and> id_user u = ''C''"
    using kept_C [THEN conjunct2, THEN conjunct2, THEN conjunct2, THEN conjunct2,
        THEN conjunct2, THEN conjunct2, THEN conjunct1] absent
    by simp
  from reach ok0 ok own lists one two cur three absent four show ?thesis
    by (intro conjI)
qed

end
